theory Spec2Isabelle
  imports Complex_Main "HOL-Library.Char_ord" "HOL-Library.List_Lexorder"
begin

section \<open>Read filters of TADbit: \<open>_pytadbit/mapping/filter.py\<close>\<close>

text \<open>
  A shallow embedding of the two functions of \<open>filter.py\<close>: \<open>apply_filter\<close>, which
  rewrites a read-pair file without the masked reads, and \<open>filter_reads\<close>, which
  classifies the read pairs of a file into nine categories. The module is Python 2.

  Conventions of the embedding:
  \<^item> a file is the string of its bytes; iterating over an open file yields its lines,
    each with its terminating newline (\<open>file_lines\<close>);
  \<^item> an exception is a value of \<open>error\<close> on the left of a sum;
  \<^item> a \<open>dict\<close> whose keys are iterated (\<open>masked.keys()\<close>, \<open>len(frag_count)\<close>) is the
    list of its items; a \<open>dict\<close> that is only looked up and updated is a map;
  \<^item> Python integers are \<open>int\<close>, Python floats are reals under a rounding function
    that is a parameter (see \<open>cut_index\<close>);
  \<^item> the files named by \<open>fnam\<close> and \<open>outfile\<close> can be opened and are two different
    files; the summary printed under \<open>verbose\<close> is not modelled.
\<close>

datatype error = KeyError | ValueError | IndexError

subsection \<open>Files and lines\<close>

definition NL :: char where
  "NL = CHR 0x0A"

definition TAB :: char where
  "TAB = CHR 0x09"

text \<open>\<open>for line in open(fnam)\<close>: the file is cut after every newline, the newline stays
  with its line, and a last line without a newline is a line too.\<close>

fun file_lines :: "string \<Rightarrow> string list" where
  "file_lines [] = []"
| "file_lines (c # cs) =
     (if c = NL then [c] # file_lines cs
      else (case file_lines cs of
              [] \<Rightarrow> [[c]]
            | l # ls \<Rightarrow> (c # l) # ls))"

subsection \<open>\<open>apply_filter\<close>\<close>

text \<open>\<open>line.split('\t', 1)[0]\<close>: the text before the first tab, the whole line when it
  has no tab.\<close>

definition read_of_line :: "string \<Rightarrow> string" where
  "read_of_line line = takeWhile (\<lambda>c. c \<noteq> TAB) line"

text \<open>The argument \<open>masked\<close> of \<open>apply_filter\<close>: a dictionary from the id of a filter to
  a set of read ids, as the items of the dictionary.\<close>

type_synonym masked_sets = "(int \<times> string set) list"

definition keys :: "masked_sets \<Rightarrow> int list" where
  "keys masked = map fst masked"

text \<open>\<open>for filt in filters: masked_reads.update(masked[filt])\<close>; \<open>masked[filt]\<close> raises
  \<open>KeyError\<close> for an id that is not a key.\<close>

fun update_masked_reads :: "masked_sets \<Rightarrow> int list \<Rightarrow> string set \<Rightarrow> error + string set" where
  "update_masked_reads masked [] masked_reads = Inr masked_reads"
| "update_masked_reads masked (filt # filters) masked_reads =
     (case map_of masked filt of
        None \<Rightarrow> Inl KeyError
      | Some ids \<Rightarrow> update_masked_reads masked filters (masked_reads \<union> ids))"

text \<open>The loop over the lines of the input; \<open>out\<close> is what has been written so far.\<close>

fun write_lines :: "string set \<Rightarrow> string list \<Rightarrow> string \<Rightarrow> string" where
  "write_lines masked_reads [] out = out"
| "write_lines masked_reads (line # lines) out =
     (if read_of_line line \<notin> masked_reads
      then write_lines masked_reads lines (out @ line)
      else write_lines masked_reads lines out)"

text \<open>\<open>filters or masked.keys()\<close>: an omitted argument (\<open>None\<close>) and an empty list are
  both false, and both are replaced by the keys of \<open>masked\<close>.\<close>

definition filters_or_keys :: "int list option \<Rightarrow> masked_sets \<Rightarrow> int list" where
  "filters_or_keys filters masked =
     (case filters of
        None \<Rightarrow> keys masked
      | Some fs \<Rightarrow> (if fs = [] then keys masked else fs))"

text \<open>\<open>apply_filter fnam masked filters\<close> is the content of \<open>outfile\<close> after the call, for
  the content \<open>fnam\<close> of the input file.\<close>

definition apply_filter :: "string \<Rightarrow> masked_sets \<Rightarrow> int list option \<Rightarrow> error + string" where
  "apply_filter fnam masked filters =
     (case update_masked_reads masked (filters_or_keys filters masked) {} of
        Inl e \<Rightarrow> Inl e
      | Inr masked_reads \<Rightarrow> Inr (write_lines masked_reads (file_lines fnam) []))"

text \<open>The Selector in the words of the specification: the lines of the file whose read id
  is in none of the chosen categories' sets, in their order.\<close>

definition chosen_reads :: "masked_sets \<Rightarrow> int list \<Rightarrow> string set" where
  "chosen_reads masked S = \<Union> (set (map (\<lambda>k. case map_of masked k of None \<Rightarrow> {} | Some ids \<Rightarrow> ids) S))"

definition selector_spec :: "string \<Rightarrow> masked_sets \<Rightarrow> int list \<Rightarrow> string list" where
  "selector_spec F masked S = filter (\<lambda>line. read_of_line line \<notin> chosen_reads masked S) (file_lines F)"

subsection \<open>Splitting a line and reading integers\<close>

text \<open>\<open>line.split()\<close> cuts at runs of whitespace and yields no empty field; the
  whitespace of a Python 2 \<open>str\<close> is space, tab, newline, vertical tab, form feed and
  carriage return. \<open>w\<close> is the field being read.\<close>

definition is_space :: "char \<Rightarrow> bool" where
  "is_space c = (c = CHR '' '' \<or> c = TAB \<or> c = NL \<or> c = CHR 0x0B \<or> c = CHR 0x0C \<or> c = CHR 0x0D)"

fun split_ws :: "string \<Rightarrow> string \<Rightarrow> string list" where
  "split_ws w [] = (if w = [] then [] else [w])"
| "split_ws w (c # cs) =
     (if is_space c then (if w = [] then split_ws [] cs else w # split_ws [] cs)
      else split_ws (w @ [c]) cs)"

definition py_split :: "string \<Rightarrow> string list" where
  "py_split line = split_ws [] line"

text \<open>\<open>int(s)\<close> for a field \<open>s\<close> (which has no whitespace): an optional sign and at
  least one decimal digit; anything else raises \<open>ValueError\<close> (here \<open>None\<close>).\<close>

definition digit :: "char \<Rightarrow> int option" where
  "digit c = (let n = (of_char c :: nat) in if 48 \<le> n \<and> n \<le> 57 then Some (int n - 48) else None)"

fun digits :: "int \<Rightarrow> string \<Rightarrow> int option" where
  "digits acc [] = Some acc"
| "digits acc (c # cs) = (case digit c of None \<Rightarrow> None | Some d \<Rightarrow> digits (10 * acc + d) cs)"

definition py_int :: "string \<Rightarrow> int option" where
  "py_int s =
     (case s of
        [] \<Rightarrow> None
      | c # cs \<Rightarrow>
          if c = CHR ''-'' then (if cs = [] then None else map_option uminus (digits 0 cs))
          else if c = CHR ''+'' then (if cs = [] then None else digits 0 cs)
          else digits 0 s)"

subsection \<open>The cut of over-represented fragments\<close>

text \<open>\<open>count_re_fragments\<close> is imported from another module; its result \<open>frag_count\<close>, a
  dictionary from (chromosome, start of the fragment) to a count, is a parameter here,
  given as the list of its items.\<close>

type_synonym frag_table = "((string \<times> int) \<times> int) list"

text \<open>\<open>int(x)\<close> of a float rounds towards zero.\<close>

definition py_int_of_float :: "real \<Rightarrow> int" where
  "py_int_of_float x = (if 0 \<le> x then \<lfloor>x\<rfloor> else \<lceil>x\<rceil>)"

text \<open>\<open>xs[i]\<close>: an index below zero counts from the end, and an index outside the list
  raises \<open>IndexError\<close>.\<close>

definition py_index :: "'a list \<Rightarrow> int \<Rightarrow> error + 'a" where
  "py_index xs i =
     (if 0 \<le> i \<and> i < int (length xs) then Inr (xs ! nat i)
      else if i < 0 \<and> - int (length xs) \<le> i then Inr (xs ! nat (int (length xs) + i))
      else Inl IndexError)"

text \<open>\<open>int((1 - over_represented) * num_frags + 0.5)\<close>. The arithmetic is on floats: each
  operation gives the exact result rounded to a float. The rounding \<open>fl\<close> is a parameter;
  \<open>fl = (\<lambda>x. x)\<close> is exact arithmetic.\<close>

definition cut_index :: "(real \<Rightarrow> real) \<Rightarrow> real \<Rightarrow> nat \<Rightarrow> int" where
  "cut_index fl over_represented num_frags =
     py_int_of_float (fl (fl (fl (1 - over_represented) * fl (real num_frags)) + 1 / 2))"

text \<open>Lines 73 to 75: \<open>cut = sorted([frag_count[crm] for crm in frag_count])[cut]\<close> (the index and the cut
  are both named \<open>cut\<close> there, \<open>cutoff\<close> here).\<close>

definition compute_cut :: "(real \<Rightarrow> real) \<Rightarrow> real \<Rightarrow> frag_table \<Rightarrow> error + int" where
  "compute_cut fl over_represented frag_count =
     (let num_frags = length frag_count;
          cutoff = cut_index fl over_represented num_frags
      in py_index (sort (map snd frag_count)) cutoff)"

text \<open>\<open>frag_count.get(k, 0)\<close>.\<close>

definition frag_get :: "frag_table \<Rightarrow> string \<times> int \<Rightarrow> int" where
  "frag_get frag_count k = (case map_of frag_count k of None \<Rightarrow> 0 | Some n \<Rightarrow> n)"

subsection \<open>\<open>filter_reads\<close>\<close>

text \<open>The dictionary \<open>masked\<close> of \<open>filter_reads\<close>: for each of the nine filters a
  dictionary with its name and the set of the reads it masks.\<close>

record category =
  name :: string
  reads :: "string set"

type_synonym categories = "int \<rightharpoonup> category"

definition masked_init :: categories where
  "masked_init =
     [1 \<mapsto> \<lparr>name = ''self-circle'', reads = {}\<rparr>,
      2 \<mapsto> \<lparr>name = ''dangling-end'', reads = {}\<rparr>,
      3 \<mapsto> \<lparr>name = ''extra dangling-end'', reads = {}\<rparr>,
      4 \<mapsto> \<lparr>name = ''error'', reads = {}\<rparr>,
      5 \<mapsto> \<lparr>name = ''duplicated'', reads = {}\<rparr>,
      6 \<mapsto> \<lparr>name = ''too close from RE'', reads = {}\<rparr>,
      7 \<mapsto> \<lparr>name = ''too short'', reads = {}\<rparr>,
      8 \<mapsto> \<lparr>name = ''too large'', reads = {}\<rparr>,
      9 \<mapsto> \<lparr>name = ''over-represented'', reads = {}\<rparr>]"

text \<open>\<open>masked[k]["reads"].add(r)\<close>.\<close>

definition add_read :: "int \<Rightarrow> string \<Rightarrow> categories \<Rightarrow> error + categories" where
  "add_read k r m =
     (case m k of
        None \<Rightarrow> Inl KeyError
      | Some c \<Rightarrow> Inr (m(k \<mapsto> c\<lparr>reads := insert r (reads c)\<rparr>)))"

text \<open>The keyword parameters of \<open>filter_reads\<close> (without \<open>verbose\<close>) and their defaults.\<close>

record params =
  max_molecule_length :: int
  over_represented :: real
  max_frag_size :: int
  min_frag_size :: int
  re_proximity :: int

definition default_params :: params where
  "default_params =
     \<lparr>max_molecule_length = 500, over_represented = 5 / 1000, max_frag_size = 100000,
      min_frag_size = 100, re_proximity = 5\<rparr>"

text \<open>The names bound at line 78, the eight numbers converted at lines 86 and 87.\<close>

record read_pair =
  read :: string
  cr1 :: string
  ps1 :: int
  sd1 :: int
  rs1 :: int
  re1 :: int
  cr2 :: string
  ps2 :: int
  sd2 :: int
  rs2 :: int
  re2 :: int

text \<open>Line 79: \<open>tuple(sorted((cr1 + ps1, cr2 + ps2)))\<close>, on the texts of the fields;
  strings are compared byte by byte.\<close>

definition uniq_key :: "string \<Rightarrow> string \<Rightarrow> string \<Rightarrow> string \<Rightarrow> string \<times> string" where
  "uniq_key c1 p1 c2 p2 =
     (let a = c1 @ p1; b = c2 @ p2 in if b < a then (b, a) else (a, b))"

text \<open>Lines 80 to 85.\<close>

definition check_uniq ::
  "string \<Rightarrow> string \<times> string \<Rightarrow> categories \<Rightarrow> (string \<times> string \<rightharpoonup> string)
   \<Rightarrow> error + categories \<times> (string \<times> string \<rightharpoonup> string)" where
  "check_uniq r k m uniq_check =
     (case uniq_check k of
        None \<Rightarrow> Inr (m, uniq_check(k \<mapsto> r))
      | Some first \<Rightarrow>
          (case add_read 5 r m of
             Inl e \<Rightarrow> Inl e
           | Inr m1 \<Rightarrow>
               (case m1 5 of
                  None \<Rightarrow> Inl KeyError
                | Some c \<Rightarrow>
                    if first \<notin> reads c
                    then (case add_read 5 first m1 of
                            Inl e \<Rightarrow> Inl e
                          | Inr m2 \<Rightarrow> Inr (m2, uniq_check))
                    else Inr (m1, uniq_check))))"

text \<open>\<open>(ps2 > ps1) == sd2\<close> compares a \<open>bool\<close> with an \<open>int\<close>: \<open>True\<close> equals 1 and
  \<open>False\<close> equals 0.\<close>

definition py_eq_bool_int :: "bool \<Rightarrow> int \<Rightarrow> bool" where
  "py_eq_bool_int b i = (i = (if b then 1 else 0))"

text \<open>Lines 88 to 117. At line 103, \<open>ps2 > ps1 != sd2\<close> is a chain of comparisons:
  \<open>ps2 > ps1 and ps1 != sd2\<close>.\<close>

definition classify :: "params \<Rightarrow> frag_table \<Rightarrow> int \<Rightarrow> read_pair \<Rightarrow> categories \<Rightarrow> error + categories" where
  "classify P frag_count cutoff p m =
     (if cr1 p \<noteq> cr2 p then Inr m
      else if re1 p = re2 p then
        (if sd1 p \<noteq> sd2 p then
           (if py_eq_bool_int (ps2 p > ps1 p) (sd2 p) then add_read 1 (read p) m
            else add_read 2 (read p) m)
         else add_read 4 (read p) m)
      else if \<bar>ps1 p - ps2 p\<bar> < max_molecule_length P
              \<and> ps1 p \<noteq> ps2 p
              \<and> (ps2 p > ps1 p \<and> ps1 p \<noteq> sd2 p) then add_read 3 (read p) m
      else if \<bar>re1 p - ps1 p\<bar> < re_proximity P
              \<or> \<bar>rs1 p - ps1 p\<bar> < re_proximity P
              \<or> \<bar>re2 p - ps2 p\<bar> < re_proximity P
              \<or> \<bar>rs2 p - ps2 p\<bar> < re_proximity P then add_read 6 (read p) m
      else if re1 p - rs1 p < min_frag_size P \<or> re2 p - rs2 p < min_frag_size P
        then add_read 7 (read p) m
      else if re1 p - rs1 p > max_frag_size P \<or> re2 p - rs2 p > max_frag_size P
        then add_read 8 (read p) m
      else if frag_get frag_count (cr1 p, rs1 p) > cutoff \<or> frag_get frag_count (cr2 p, rs2 p) > cutoff
        then add_read 9 (read p) m
      else Inr m)"

text \<open>Lines 86 and 87: \<open>map(int, (ps1, ps2, sd1, sd2, re1, rs1, re2, rs2))\<close> on the fields
  \<open>fs\<close> of a line, in the order of line 78.\<close>

definition to_pair :: "string list \<Rightarrow> error + read_pair" where
  "to_pair fs =
     (case those (map py_int [fs ! 2, fs ! 8, fs ! 3, fs ! 9, fs ! 6, fs ! 5, fs ! 12, fs ! 11]) of
        None \<Rightarrow> Inl ValueError
      | Some v \<Rightarrow>
          Inr \<lparr>read = fs ! 0, cr1 = fs ! 1, ps1 = v ! 0, sd1 = v ! 2, rs1 = v ! 5, re1 = v ! 4,
               cr2 = fs ! 7, ps2 = v ! 1, sd2 = v ! 3, rs2 = v ! 7, re2 = v ! 6\<rparr>)"

text \<open>The body of the loop, lines 78 to 117. The unpacking at line 78 raises
  \<open>ValueError\<close> unless the line has exactly thirteen fields.\<close>

definition process_line ::
  "params \<Rightarrow> frag_table \<Rightarrow> int \<Rightarrow> string \<Rightarrow> categories \<times> (string \<times> string \<rightharpoonup> string)
   \<Rightarrow> error + categories \<times> (string \<times> string \<rightharpoonup> string)" where
  "process_line P frag_count cutoff line s =
     (let fs = py_split line in
      if length fs \<noteq> 13 then Inl ValueError
      else
        (case check_uniq (fs ! 0) (uniq_key (fs ! 1) (fs ! 2) (fs ! 7) (fs ! 8)) (fst s) (snd s) of
           Inl e \<Rightarrow> Inl e
         | Inr s1 \<Rightarrow>
             (case to_pair fs of
                Inl e \<Rightarrow> Inl e
              | Inr p \<Rightarrow>
                  (case classify P frag_count cutoff p (fst s1) of
                     Inl e \<Rightarrow> Inl e
                   | Inr m2 \<Rightarrow> Inr (m2, snd s1)))))"

fun read_loop ::
  "params \<Rightarrow> frag_table \<Rightarrow> int \<Rightarrow> string list \<Rightarrow> categories \<times> (string \<times> string \<rightharpoonup> string)
   \<Rightarrow> error + categories \<times> (string \<times> string \<rightharpoonup> string)" where
  "read_loop P frag_count cutoff [] s = Inr s"
| "read_loop P frag_count cutoff (line # lines) s =
     (case process_line P frag_count cutoff line s of
        Inl e \<Rightarrow> Inl e
      | Inr s' \<Rightarrow> read_loop P frag_count cutoff lines s')"

text \<open>\<open>filter_reads\<close> on the content \<open>fnam\<close> of the file, with \<open>frag_count\<close> for the result
  of \<open>count_re_fragments(fnam)\<close>; the result is the dictionary \<open>masked\<close>.\<close>

definition filter_reads :: "(real \<Rightarrow> real) \<Rightarrow> string \<Rightarrow> frag_table \<Rightarrow> params \<Rightarrow> error + categories" where
  "filter_reads fl fnam frag_count P =
     (case compute_cut fl (over_represented P) frag_count of
        Inl e \<Rightarrow> Inl e
      | Inr cutoff \<Rightarrow>
          (case read_loop P frag_count cutoff (file_lines fnam) (masked_init, Map.empty) of
             Inl e \<Rightarrow> Inl e
           | Inr s \<Rightarrow> Inr (fst s)))"

subsection \<open>Well-formed lists of lines\<close>

text \<open>Used in the proofs about \<open>file_lines\<close>: a line is not empty and has no newline
  but possibly at its end; in a list of lines all but the last end with a newline.\<close>

definition one_line :: "string \<Rightarrow> bool" where
  "one_line l \<longleftrightarrow> l \<noteq> [] \<and> NL \<notin> set (butlast l)"

definition closed_line :: "string \<Rightarrow> bool" where
  "closed_line l \<longleftrightarrow> one_line l \<and> last l = NL"

fun well_lined :: "string list \<Rightarrow> bool" where
  "well_lined [] = True"
| "well_lined [l] = one_line l"
| "well_lined (l # l' # ls) = (closed_line l \<and> well_lined (l' # ls))"

subsection \<open>Notions used in the statements\<close>

text \<open>\<open>masked[k]["reads"]\<close>, empty for an id that is not a key.\<close>

definition reads_of :: "categories \<Rightarrow> int \<Rightarrow> string set" where
  "reads_of m k = (case m k of None \<Rightarrow> {} | Some c \<Rightarrow> reads c)"

text \<open>The reads of category \<open>k\<close> in the result of a run, when the run returns.\<close>

definition reads_after :: "error + categories \<Rightarrow> int \<Rightarrow> error + string set" where
  "reads_after r k = (case r of Inl e \<Rightarrow> Inl e | Inr m \<Rightarrow> Inr (reads_of m k))"

text \<open>The read id and the key of line 79, of a line of the file.\<close>

definition line_read :: "string \<Rightarrow> string" where
  "line_read line = py_split line ! 0"

definition line_key :: "string \<Rightarrow> string \<times> string" where
  "line_key line = (let fs = py_split line in uniq_key (fs ! 1) (fs ! 2) (fs ! 7) (fs ! 8))"

text \<open>The ids of the categories filled at lines 88 to 117.\<close>

definition geometry :: "int set" where
  "geometry = {1, 2, 3, 4, 6, 7, 8, 9}"

text \<open>A line that the body of the loop accepts: exactly thirteen fields, of which the
  eight that are converted at lines 86 and 87 are integers.\<close>

definition well_formed :: "string \<Rightarrow> bool" where
  "well_formed line =
     (let fs = py_split line
      in length fs = 13
         \<and> list_all (\<lambda>s. py_int s \<noteq> None)
               [fs ! 2, fs ! 3, fs ! 5, fs ! 6, fs ! 8, fs ! 9, fs ! 11, fs ! 12])"

text \<open>The id of the category that \<open>classify\<close> adds the read to, if any: the chain of
  conditions of lines 88 to 117 with the id in place of the update (lemma
  \<open>classify_category_of\<close> below relates the two).\<close>

definition category_of :: "params \<Rightarrow> frag_table \<Rightarrow> int \<Rightarrow> read_pair \<Rightarrow> int option" where
  "category_of P frag_count cutoff p =
     (if cr1 p \<noteq> cr2 p then None
      else if re1 p = re2 p then
        (if sd1 p \<noteq> sd2 p then
           (if py_eq_bool_int (ps2 p > ps1 p) (sd2 p) then Some 1 else Some 2)
         else Some 4)
      else if \<bar>ps1 p - ps2 p\<bar> < max_molecule_length P
              \<and> ps1 p \<noteq> ps2 p
              \<and> (ps2 p > ps1 p \<and> ps1 p \<noteq> sd2 p) then Some 3
      else if \<bar>re1 p - ps1 p\<bar> < re_proximity P
              \<or> \<bar>rs1 p - ps1 p\<bar> < re_proximity P
              \<or> \<bar>re2 p - ps2 p\<bar> < re_proximity P
              \<or> \<bar>rs2 p - ps2 p\<bar> < re_proximity P then Some 6
      else if re1 p - rs1 p < min_frag_size P \<or> re2 p - rs2 p < min_frag_size P then Some 7
      else if re1 p - rs1 p > max_frag_size P \<or> re2 p - rs2 p > max_frag_size P then Some 8
      else if frag_get frag_count (cr1 p, rs1 p) > cutoff \<or> frag_get frag_count (cr2 p, rs2 p) > cutoff
        then Some 9
      else None)"

definition line_category :: "params \<Rightarrow> frag_table \<Rightarrow> int \<Rightarrow> string \<Rightarrow> int option" where
  "line_category P frag_count cutoff line =
     (case to_pair (py_split line) of Inl e \<Rightarrow> None | Inr p \<Rightarrow> category_of P frag_count cutoff p)"

text \<open>The nine keys are present.\<close>

definition all_keys :: "categories \<Rightarrow> bool" where
  "all_keys m = (m 1 \<noteq> None \<and> m 2 \<noteq> None \<and> m 3 \<noteq> None \<and> m 4 \<noteq> None \<and> m 5 \<noteq> None
     \<and> m 6 \<noteq> None \<and> m 7 \<noteq> None \<and> m 8 \<noteq> None \<and> m 9 \<noteq> None)"

text \<open>The invariant of the loop for the duplicates: the key of every line read so far is
  in \<open>uniq_check\<close>, and its read is the one recorded there or is in category 5.\<close>

definition seen :: "string set \<Rightarrow> categories \<Rightarrow> (string \<times> string \<rightharpoonup> string) \<Rightarrow> bool" where
  "seen A m u =
     (\<forall>l\<in>A. u (line_key l) \<noteq> None
        \<and> (u (line_key l) = Some (line_read l) \<or> line_read l \<in> reads_of m 5))"

text \<open>\<open>str(i)\<close> of an integer, and the key of line 79 built from the positions of a read
  pair with \<open>str\<close>. A field is canonical when it is written as \<open>str\<close> writes its value (no
  sign \<open>+\<close>, no leading zero); for such fields the two keys are the same (lemma
  \<open>line_key_pair_key\<close>).\<close>

definition digit_char :: "nat \<Rightarrow> char" where
  "digit_char d = char_of (48 + d)"

fun str_nat :: "nat \<Rightarrow> string" where
  "str_nat n = (if n < 10 then [digit_char n] else str_nat (n div 10) @ [digit_char (n mod 10)])"

definition py_str :: "int \<Rightarrow> string" where
  "py_str i = (if i < 0 then CHR ''-'' # str_nat (nat (- i)) else str_nat (nat i))"

definition pair_key :: "read_pair \<Rightarrow> string \<times> string" where
  "pair_key p = uniq_key (cr1 p) (py_str (ps1 p)) (cr2 p) (py_str (ps2 p))"

definition canonical :: "string \<Rightarrow> bool" where
  "canonical s = (case py_int s of None \<Rightarrow> False | Some i \<Rightarrow> py_str i = s)"

definition canonical_positions :: "string \<Rightarrow> bool" where
  "canonical_positions line = (canonical (py_split line ! 2) \<and> canonical (py_split line ! 8))"

text \<open>What \<open>apply_filter\<close> iterates over when its argument \<open>masked\<close> is the dictionary
  returned by \<open>filter_reads\<close>: \<open>masked[filt]\<close> is then a dictionary with the keys
  \<open>'name'\<close> and \<open>'reads'\<close>, and \<open>set.update\<close> iterates over the keys of a dictionary.\<close>

definition category_iter :: "category \<Rightarrow> string set" where
  "category_iter c = {''name'', ''reads''}"

definition as_argument :: "categories \<Rightarrow> masked_sets" where
  "as_argument m =
     concat (map (\<lambda>k. case m k of None \<Rightarrow> [] | Some c \<Rightarrow> [(k, category_iter c)])
       [1, 2, 3, 4, 5, 6, 7, 8, 9])"

subsection \<open>Example inputs\<close>

text \<open>Lines of a read-pair file: read id, then chromosome, position, strand, an ignored
  field, start and end of the fragment, for each of the two ends.\<close>

definition self_circle_line :: string where
  "self_circle_line = ''r1 chr1 120 0 x 100 400 chr1 380 1 x 100 400'' @ [NL]"

definition dangling_end_line :: string where
  "dangling_end_line = ''r2 chr1 120 1 x 100 400 chr1 380 0 x 100 400'' @ [NL]"

definition error_line :: string where
  "error_line = ''r3 chr1 130 1 x 100 400 chr1 390 1 x 100 400'' @ [NL]"

definition trans_line :: string where
  "trans_line = ''r4 chr1 250 0 x 100 400 chr2 700 1 x 500 900'' @ [NL]"

definition trans_line_swapped :: string where
  "trans_line_swapped = ''r5 chr2 700 1 x 500 900 chr1 250 0 x 100 400'' @ [NL]"

definition outward_line :: string where
  "outward_line = ''rA chr1 100 0 x 50 150 chr1 200 1 x 160 400'' @ [NL]"

definition inward_line :: string where
  "inward_line = ''rB chr1 210 0 x 160 400 chr1 110 1 x 50 150'' @ [NL]"

definition reversed_dangling_line :: string where
  "reversed_dangling_line = ''r8 chr1 380 0 x 100 400 chr1 120 1 x 100 400'' @ [NL]"

definition reversed_circle_line :: string where
  "reversed_circle_line = ''r9 chr1 380 1 x 100 400 chr1 120 0 x 100 400'' @ [NL]"

definition plain_line :: string where
  "plain_line = ''rP chr1 250 0 x 100 400 chr2 700 1 x 500 900'' @ [NL]"

definition padded_line :: string where
  "padded_line = ''rQ chr1 0250 0 x 100 400 chr2 700 1 x 500 900'' @ [NL]"

definition long_line :: string where
  "long_line = ''r6 chr1 120 0 x 100 400 chr1 380 1 x 100 400 extra'' @ [NL]"

definition short_line :: string where
  "short_line = ''r7 chr1 120 0 x 100 400 chr1 380 1 x 100'' @ [NL]"

text \<open>Tables of fragment counts for the files of the examples: for each fragment, the
  number of read ends of the file on it. With the fraction 3/4 the cut is computed on
  tables of one and of two fragments.\<close>

definition frags_one_read :: frag_table where
  "frags_one_read = [((''chr1'', 100), 2)]"

definition frags_two_reads :: frag_table where
  "frags_two_reads = [((''chr1'', 100), 4)]"

definition frags_three_reads :: frag_table where
  "frags_three_reads = [((''chr1'', 100), 6)]"

definition frags_five_reads :: frag_table where
  "frags_five_reads = [((''chr1'', 100), 10)]"

definition frags_padded :: frag_table where
  "frags_padded = [((''chr1'', 100), 2), ((''chr2'', 500), 2)]"

definition frags_trans :: frag_table where
  "frags_trans = [((''chr1'', 100), 4), ((''chr2'', 500), 2)]"

definition frags_cross :: frag_table where
  "frags_cross = [((''chr1'', 50), 2), ((''chr1'', 160), 2)]"

definition example_params :: params where
  "example_params = default_params\<lparr>over_represented := 3 / 4\<rparr>"

section \<open>Properties of \<open>apply_filter\<close>\<close>

subsection \<open>Lines of a file\<close>

lemma file_lines_body: "NL \<notin> set body \<Longrightarrow> file_lines (body @ NL # s) = (body @ [NL]) # file_lines s"
  by (induction body) auto

lemma file_lines_no_newline: "NL \<notin> set l \<Longrightarrow> l \<noteq> [] \<Longrightarrow> file_lines l = [l]"
proof (induction l)
  case Nil
  then show ?case by simp
next
  case (Cons c l)
  then show ?case by (cases "l = []") auto
qed

lemma closed_lineE: "closed_line l \<Longrightarrow> \<exists>body. l = body @ [NL] \<and> NL \<notin> set body"
  unfolding closed_line_def one_line_def
  by (metis append_butlast_last_id)

lemma file_lines_closed: "closed_line l \<Longrightarrow> file_lines (l @ s) = l # file_lines s"
  using closed_lineE [of l] file_lines_body by fastforce

lemma file_lines_one_line: "one_line l \<Longrightarrow> file_lines l = [l]"
proof (cases "last l = NL")
  case True
  assume "one_line l"
  with True have "closed_line l" by (simp add: closed_line_def)
  from file_lines_closed [OF this, of "[]"] show ?thesis by simp
next
  case False
  assume "one_line l"
  with False have "NL \<notin> set l" "l \<noteq> []"
    unfolding one_line_def by (metis append_butlast_last_id insert_iff list.simps(15) rotate1.simps(2) set_rotate1, simp)
  then show ?thesis by (rule file_lines_no_newline)
qed

lemma well_lined_Cons: "closed_line l \<Longrightarrow> well_lined ls \<Longrightarrow> well_lined (l # ls)"
  by (cases ls) (auto simp: closed_line_def)

lemma well_lined_tl: "well_lined (l # ls) \<Longrightarrow> well_lined ls"
  by (cases ls) auto

lemma well_lined_concat: "well_lined ls \<Longrightarrow> file_lines (concat ls) = ls"
proof (induction ls rule: well_lined.induct)
  case 1
  show ?case by simp
next
  case (2 l)
  then show ?case by (simp add: file_lines_one_line)
next
  case (3 l l' ls)
  then show ?case by (simp add: file_lines_closed)
qed

lemma well_lined_file_lines: "well_lined (file_lines s)"
proof (induction s)
  case Nil
  show ?case by simp
next
  case (Cons c s)
  show ?case
  proof (cases "c = NL")
    case True
    have "closed_line [c]" using True by (simp add: closed_line_def one_line_def)
    with Cons True show ?thesis by (simp add: well_lined_Cons)
  next
    case False
    show ?thesis
    proof (cases "file_lines s")
      case Nil
      with False show ?thesis by (simp add: one_line_def)
    next
      case (Cons l ls)
      with Cons.IH have wl: "well_lined (l # ls)" by simp
      show ?thesis
      proof (cases ls)
        case Nil
        with wl have "one_line l" by simp
        with False have "one_line (c # l)" by (auto simp: one_line_def)
        with Nil Cons False show ?thesis by simp
      next
        case (Cons l' ls')
        with wl have "closed_line l" by simp
        with False have "closed_line (c # l)" by (auto simp: closed_line_def one_line_def)
        with wl Cons \<open>file_lines s = l # ls\<close> False show ?thesis by simp
      qed
    qed
  qed
qed

lemma well_lined_filter: "well_lined ls \<Longrightarrow> well_lined (filter P ls)"
proof (induction ls rule: well_lined.induct)
  case 1
  show ?case by simp
next
  case (2 l)
  then show ?case by simp
next
  case (3 l l' ls)
  from 3 have cl: "closed_line l" and ih: "well_lined (filter P (l' # ls))" by simp_all
  show ?case
  proof (cases "P l")
    case True
    then have "filter P (l # l' # ls) = l # filter P (l' # ls)" by simp
    with cl ih show ?thesis by (simp only: well_lined_Cons)
  next
    case False
    then have "filter P (l # l' # ls) = filter P (l' # ls)" by simp
    with ih show ?thesis by (simp only:)
  qed
qed

lemma file_lines_concat_filter:
  "file_lines (concat (filter P (file_lines s))) = filter P (file_lines s)"
  by (simp add: well_lined_concat well_lined_filter well_lined_file_lines)

lemma concat_file_lines: "concat (file_lines s) = s"
  by (induction s) (auto split: list.splits)

lemma update_masked_reads_char:
  "update_masked_reads masked fs acc =
     (if set fs \<subseteq> set (keys masked) then Inr (acc \<union> chosen_reads masked fs) else Inl KeyError)"
proof (induction fs arbitrary: acc)
  case Nil
  show ?case by (simp add: chosen_reads_def)
next
  case (Cons k fs)
  show ?case
  proof (cases "map_of masked k")
    case None
    then have "k \<notin> set (keys masked)"
      by (simp add: keys_def map_of_eq_None_iff)
    with None show ?thesis by simp
  next
    case (Some ids)
    then have "k \<in> set (keys masked)"
      by (metis keys_def map_of_eq_None_iff option.distinct(1) set_map)
    with Some Cons show ?thesis
      by (auto simp: chosen_reads_def)
  qed
qed

lemma write_lines_filter:
  "write_lines R ls out = out @ concat (filter (\<lambda>line. read_of_line line \<notin> R) ls)"
  by (induction ls arbitrary: out) auto

lemma apply_filter_char:
  "apply_filter F masked S =
     (if set (filters_or_keys S masked) \<subseteq> set (keys masked)
      then Inr (concat (selector_spec F masked (filters_or_keys S masked)))
      else Inl KeyError)"
  by (simp add: apply_filter_def update_masked_reads_char write_lines_filter selector_spec_def)

lemma file_lines_selector_spec:
  "file_lines (concat (selector_spec F masked S)) = selector_spec F masked S"
  by (simp add: selector_spec_def file_lines_concat_filter)

lemma chosen_reads_mono: "set S \<subseteq> set S' \<Longrightarrow> chosen_reads masked S \<subseteq> chosen_reads masked S'"
  by (auto simp: chosen_reads_def)

lemma selector_spec_twice:
  "chosen_reads masked S \<subseteq> chosen_reads masked S' \<Longrightarrow>
   selector_spec (concat (selector_spec F masked S)) masked S' = selector_spec F masked S'"
proof -
  assume sub: "chosen_reads masked S \<subseteq> chosen_reads masked S'"
  have "selector_spec (concat (selector_spec F masked S)) masked S' =
        filter (\<lambda>line. read_of_line line \<notin> chosen_reads masked S') (selector_spec F masked S)"
    by (simp add: selector_spec_def file_lines_concat_filter)
  also have "\<dots> = filter (\<lambda>line. read_of_line line \<notin> chosen_reads masked S') (file_lines F)"
    unfolding selector_spec_def filter_filter
    by (rule filter_cong) (use sub in auto)
  finally show ?thesis by (simp add: selector_spec_def)
qed

subsection \<open>The Selector\<close>

text \<open>C10: an explicitly empty list of filters behaves as an omitted one: it is replaced by
  all the keys of \<open>masked\<close>, so the reads of every category are removed, not none.\<close>

theorem apply_filter_empty_filters:
  "apply_filter fnam masked (Some []) = apply_filter fnam masked None
   \<and> apply_filter fnam masked (Some []) = apply_filter fnam masked (Some (keys masked))
   \<and> apply_filter fnam masked (Some []) = Inr (concat (selector_spec fnam masked (keys masked)))"
  by (simp add: apply_filter_char filters_or_keys_def)

theorem apply_filter_empty_filters_witness:
  "apply_filter (''a'' @ [TAB] @ ''1'' @ [NL] @ ''b'' @ [TAB] @ ''2'' @ [NL] @ ''c'' @ [TAB] @ ''3'' @ [NL])
       [(1, {''a''}), (2, {}), (3, {}), (4, {}), (5, {''c'', ''a''}), (6, {}), (7, {}), (8, {}), (9, {})]
       None
     = Inr (''b'' @ [TAB] @ ''2'' @ [NL])
   \<and> apply_filter (''a'' @ [TAB] @ ''1'' @ [NL] @ ''b'' @ [TAB] @ ''2'' @ [NL] @ ''c'' @ [TAB] @ ''3'' @ [NL])
       [(1, {''a''}), (2, {}), (3, {}), (4, {}), (5, {''c'', ''a''}), (6, {}), (7, {}), (8, {}), (9, {})]
       (Some [])
     = Inr (''b'' @ [TAB] @ ''2'' @ [NL])"
proof -
  let ?F = "''a'' @ [TAB] @ ''1'' @ [NL] @ ''b'' @ [TAB] @ ''2'' @ [NL] @ ''c'' @ [TAB] @ ''3'' @ [NL]"
  let ?M = "[(1::int, {''a''}), (2, {}), (3, {}), (4, {}), (5, {''c'', ''a''}), (6, {}), (7, {}), (8, {}), (9, {})]"
  note t = apply_filter_empty_filters [of ?F ?M]
  note a = t [THEN conjunct1] and b = t [THEN conjunct2, THEN conjunct2]
  have c: "concat (selector_spec ?F ?M (keys ?M)) = ''b'' @ [TAB] @ ''2'' @ [NL]"
    by (simp add: keys_def selector_spec_def chosen_reads_def read_of_line_def NL_def TAB_def)
  show ?thesis by (simp only: a [symmetric] b c)
qed

text \<open>C1, as amended: for every file \<open>F\<close> and every non-empty list \<open>S\<close> of filter ids that
  are keys of \<open>masked\<close>, the output of \<open>apply_filter\<close> is the lines of \<open>F\<close> whose first
  tab-delimited field is in none of the sets chosen by \<open>S\<close>: the same bytes, in the same
  order, and read back as the same lines. (An empty \<open>S\<close> chooses every category, C10.)\<close>

theorem apply_filter_selects:
  assumes "S \<noteq> []" and "set S \<subseteq> set (keys masked)"
  shows "apply_filter F masked (Some S) = Inr (concat (selector_spec F masked S))
         \<and> file_lines (concat (selector_spec F masked S)) = selector_spec F masked S"
  using assms by (simp add: apply_filter_char filters_or_keys_def file_lines_selector_spec)

theorem apply_filter_selects_witness:
  "apply_filter (''a'' @ [TAB] @ ''1'' @ [NL] @ ''b'' @ [TAB] @ ''2'' @ [NL] @ ''c'' @ [TAB] @ ''3'')
       [(1, {''a''}), (2, {''b''}), (5, {''c'', ''a''})] (Some [5, 1])
     = Inr (''b'' @ [TAB] @ ''2'' @ [NL])
   \<and> file_lines (''b'' @ [TAB] @ ''2'' @ [NL]) = [''b'' @ [TAB] @ ''2'' @ [NL]]"
  using apply_filter_selects [of "[5, 1]" "[(1, {''a''}), (2, {''b''}), (5, {''c'', ''a''})]"
      "''a'' @ [TAB] @ ''1'' @ [NL] @ ''b'' @ [TAB] @ ''2'' @ [NL] @ ''c'' @ [TAB] @ ''3''"]
  by (simp add: keys_def selector_spec_def chosen_reads_def read_of_line_def NL_def TAB_def)

text \<open>C1 as stated fails for the empty subset: the union of no category is empty, so the
  claim keeps the line of read \<open>r1\<close>, and \<open>apply_filter\<close> removes it.\<close>

theorem apply_filter_empty_counterexample:
  "apply_filter (''r1'' @ [TAB] @ ''x'' @ [NL]) [(1, {''r1''})] (Some [])
     \<noteq> Inr (concat (selector_spec (''r1'' @ [TAB] @ ''x'' @ [NL]) [(1, {''r1''})] []))"
  by (simp add: apply_filter_def filters_or_keys_def keys_def selector_spec_def chosen_reads_def
      read_of_line_def NL_def TAB_def)

text \<open>C2, as amended: on the output of a run of \<open>apply_filter\<close>, a second run with the same
  filters changes nothing, and a second run with an empty list of filters gives what a run
  with an empty list gives on the original file (every category is applied).\<close>

theorem apply_filter_rerun:
  assumes "apply_filter F masked S = Inr out"
  shows "apply_filter out masked (Some []) = apply_filter F masked (Some [])
         \<and> apply_filter out masked S = Inr out"
proof -
  let ?fs = "filters_or_keys S masked"
  from assms have sub: "set ?fs \<subseteq> set (keys masked)"
    and out: "out = concat (selector_spec F masked ?fs)"
    by (auto simp: apply_filter_char split: if_splits)
  have "selector_spec out masked (keys masked) = selector_spec F masked (keys masked)"
    unfolding out by (rule selector_spec_twice) (rule chosen_reads_mono [OF sub])
  moreover have "selector_spec out masked ?fs = selector_spec F masked ?fs"
    unfolding out by (rule selector_spec_twice) simp
  ultimately show ?thesis
    using sub out by (simp add: apply_filter_char filters_or_keys_def)
qed

theorem apply_filter_rerun_witness:
  "apply_filter (''a'' @ [TAB] @ ''1'' @ [NL] @ ''b'' @ [TAB] @ ''2'' @ [NL])
       [(1, {''a''}), (2, {''b''})] (Some [1]) = Inr (''b'' @ [TAB] @ ''2'' @ [NL])
   \<and> apply_filter (''b'' @ [TAB] @ ''2'' @ [NL]) [(1, {''a''}), (2, {''b''})] (Some []) = Inr []
   \<and> apply_filter (''b'' @ [TAB] @ ''2'' @ [NL]) [(1, {''a''}), (2, {''b''})] (Some [1])
       = Inr (''b'' @ [TAB] @ ''2'' @ [NL])"
proof -
  have h: "apply_filter (''a'' @ [TAB] @ ''1'' @ [NL] @ ''b'' @ [TAB] @ ''2'' @ [NL])
       [(1, {''a''}), (2, {''b''})] (Some [1]) = Inr (''b'' @ [TAB] @ ''2'' @ [NL])"
    by (simp add: apply_filter_def filters_or_keys_def keys_def read_of_line_def NL_def TAB_def)
  from apply_filter_rerun [OF h] h show ?thesis
    by (simp add: apply_filter_def filters_or_keys_def keys_def read_of_line_def NL_def TAB_def)
qed

text \<open>C2 as stated fails: after a run with filter 1 only, a run with no filter (an empty
  list, or none given) removes the
  line that filter 2 masks.\<close>

theorem apply_filter_rerun_counterexample:
  "apply_filter (''a'' @ [TAB] @ ''1'' @ [NL] @ ''b'' @ [TAB] @ ''2'' @ [NL])
       [(1, {''a''}), (2, {''b''})] (Some [1]) = Inr (''b'' @ [TAB] @ ''2'' @ [NL])
   \<and> apply_filter (''b'' @ [TAB] @ ''2'' @ [NL]) [(1, {''a''}), (2, {''b''})] (Some [])
       \<noteq> apply_filter (''a'' @ [TAB] @ ''1'' @ [NL] @ ''b'' @ [TAB] @ ''2'' @ [NL])
           [(1, {''a''}), (2, {''b''})] (Some [1])
   \<and> apply_filter (''b'' @ [TAB] @ ''2'' @ [NL]) [(1, {''a''}), (2, {''b''})] None
       \<noteq> apply_filter (''a'' @ [TAB] @ ''1'' @ [NL] @ ''b'' @ [TAB] @ ''2'' @ [NL])
           [(1, {''a''}), (2, {''b''})] (Some [1])"
  by (simp add: apply_filter_def filters_or_keys_def keys_def read_of_line_def NL_def TAB_def)

section \<open>Properties of \<open>filter_reads\<close>\<close>

subsection \<open>The body of the loop\<close>

lemma add_read_reads:
  "add_read k r m = Inr m' \<Longrightarrow> reads_of m' j = (if j = k then insert r (reads_of m k) else reads_of m j)"
  by (auto simp: add_read_def reads_of_def split: option.splits)

lemma add_read_keys:
  "add_read k r m = Inr m' \<Longrightarrow> (m' j \<noteq> None) = (m j \<noteq> None)"
  by (auto simp: add_read_def split: option.splits if_splits)

lemma add_read_ok: "m k \<noteq> None \<Longrightarrow> \<exists>m'. add_read k r m = Inr m'"
  by (auto simp: add_read_def split: option.splits)

lemma add_read_error: "add_read k r m = Inl e \<Longrightarrow> m k = None"
  by (auto simp: add_read_def split: option.splits)

lemma classify_category_of:
  "classify P fc c p m = (case category_of P fc c p of None \<Rightarrow> Inr m | Some k \<Rightarrow> add_read k (read p) m)"
  unfolding classify_def category_of_def
  by (simp only: if_distrib [where f = "case_option (Inr m) (\<lambda>k. add_read k (read p) m)"] option.case)

lemma category_of_geometry: "category_of P fc c p = Some k \<Longrightarrow> k \<in> geometry"
  by (auto simp: category_of_def geometry_def split: if_splits)

lemma classify_reads:
  assumes "classify P fc c p m = Inr m'"
  shows "reads_of m' j = (if category_of P fc c p = Some j then insert (read p) (reads_of m j) else reads_of m j)"
  using assms by (auto simp: classify_category_of add_read_reads split: option.splits)

lemma classify_keys:
  "classify P fc c p m = Inr m' \<Longrightarrow> (m' j \<noteq> None) = (m j \<noteq> None)"
  by (auto simp: classify_category_of split: option.splits dest: add_read_keys)

lemma check_uniq_new:
  "u k = None \<Longrightarrow> check_uniq r k m u = Inr (m, u(k \<mapsto> r))"
  by (simp add: check_uniq_def)

lemma check_uniq_seen:
  assumes "u k = Some f" and "check_uniq r k m u = Inr (m', u')"
  shows "u' = u \<and> reads_of m' 5 = insert r (insert f (reads_of m 5))
         \<and> (\<forall>j. j \<noteq> 5 \<longrightarrow> reads_of m' j = reads_of m j) \<and> (\<forall>j. (m' j \<noteq> None) = (m j \<noteq> None))"
proof -
  from assms obtain m1 where m1: "add_read 5 r m = Inr m1"
    by (auto simp: check_uniq_def split: sum.splits)
  then obtain c where c: "m1 5 = Some c"
    by (auto simp: add_read_def split: option.splits)
  have r1: "reads_of m1 j = (if j = 5 then insert r (reads_of m 5) else reads_of m j)" for j
    using add_read_reads [OF m1] by simp
  have k1: "(m1 j \<noteq> None) = (m j \<noteq> None)" for j
    using add_read_keys [OF m1] by simp
  show ?thesis
  proof (cases "f \<in> reads c")
    case True
    with assms m1 c have "m' = m1" "u' = u"
      by (auto simp: check_uniq_def)
    moreover from True c have "f \<in> reads_of m1 5" by (simp add: reads_of_def)
    ultimately show ?thesis using r1 k1 by auto
  next
    case False
    with assms m1 c have m2: "add_read 5 f m1 = Inr m'" and "u' = u"
      by (auto simp: check_uniq_def split: sum.splits)
    with add_read_reads [OF m2] add_read_keys [OF m2] r1 k1 show ?thesis by auto
  qed
qed

lemma check_uniq_ok:
  assumes "m 5 \<noteq> None"
  shows "\<exists>s. check_uniq r k m u = Inr s"
proof (cases "u k")
  case None
  then show ?thesis by (simp add: check_uniq_def)
next
  case (Some f)
  from assms obtain m1 where m1: "add_read 5 r m = Inr m1"
    using add_read_ok [of m 5 r] by blast
  with assms have "m1 5 \<noteq> None" using add_read_keys by blast
  then obtain c where c: "m1 5 = Some c" by auto
  then obtain m2 where "add_read 5 f m1 = Inr m2"
    using add_read_ok [of m1 5 f] by auto
  with Some m1 c show ?thesis by (simp add: check_uniq_def)
qed

lemma check_uniq_error: "check_uniq r k m u = Inl e \<Longrightarrow> m 5 = None"
  using check_uniq_ok [of m r k u] by (cases "m 5") auto

lemma well_formed_to_pair:
  "well_formed line \<longleftrightarrow>
     length (py_split line) = 13 \<and> (\<exists>p. to_pair (py_split line) = Inr p)"
  by (auto simp: well_formed_def to_pair_def Let_def split: option.splits)

lemma to_pair_error: "to_pair fs = Inl e \<Longrightarrow> e = ValueError"
  by (auto simp: to_pair_def split: option.splits)

lemma to_pair_read: "to_pair fs = Inr p \<Longrightarrow> read p = fs ! 0"
  by (auto simp: to_pair_def split: option.splits)

lemma process_line_steps:
  assumes "process_line P fc c line (m, u) = Inr (m', u')"
  shows "\<exists>p m1. length (py_split line) = 13 \<and> to_pair (py_split line) = Inr p
           \<and> read p = line_read line
           \<and> check_uniq (line_read line) (line_key line) m u = Inr (m1, u')
           \<and> classify P fc c p m1 = Inr m'"
  using assms
  by (auto simp: process_line_def Let_def line_read_def line_key_def to_pair_read
      split: if_splits sum.splits)

lemma check_uniq_other:
  assumes "check_uniq r k m u = Inr (m1, u')" and "j \<noteq> 5"
  shows "reads_of m1 j = reads_of m j"
proof (cases "u k")
  case None
  with assms show ?thesis by (simp add: check_uniq_new)
next
  case (Some f)
  from check_uniq_seen [OF Some assms(1)] assms(2) show ?thesis by simp
qed

lemma check_uniq_keys:
  assumes "check_uniq r k m u = Inr (m1, u')"
  shows "(m1 j \<noteq> None) = (m j \<noteq> None)"
proof (cases "u k")
  case None
  with assms show ?thesis by (simp add: check_uniq_new)
next
  case (Some f)
  from check_uniq_seen [OF Some assms(1)] show ?thesis by simp
qed

lemma process_line_geometry:
  assumes "process_line P fc c line (m, u) = Inr (m', u')" and "k \<noteq> 5"
  shows "reads_of m' k =
           (if line_category P fc c line = Some k then insert (line_read line) (reads_of m k)
            else reads_of m k)"
proof -
  from process_line_steps [OF assms(1)] obtain p m1 where
    p: "to_pair (py_split line) = Inr p" and r: "read p = line_read line"
    and cu: "check_uniq (line_read line) (line_key line) m u = Inr (m1, u')"
    and cl: "classify P fc c p m1 = Inr m'"
    by blast
  from p have "line_category P fc c line = category_of P fc c p"
    by (simp add: line_category_def)
  with classify_reads [OF cl, of k] check_uniq_other [OF cu assms(2)] r show ?thesis
    by simp
qed

lemma process_line_duplicated:
  assumes "process_line P fc c line (m, u) = Inr (m', u')"
  shows "(case u (line_key line) of
            None \<Rightarrow> u' = u(line_key line \<mapsto> line_read line) \<and> reads_of m' 5 = reads_of m 5
          | Some f \<Rightarrow> u' = u \<and> reads_of m' 5 = insert (line_read line) (insert f (reads_of m 5)))"
proof -
  from process_line_steps [OF assms(1)] obtain p m1 where
    cu: "check_uniq (line_read line) (line_key line) m u = Inr (m1, u')"
    and cl: "classify P fc c p m1 = Inr m'"
    by blast
  have "category_of P fc c p \<noteq> Some 5"
    using category_of_geometry [of P fc c p 5] by (auto simp: geometry_def)
  with classify_reads [OF cl, of 5] have same: "reads_of m' 5 = reads_of m1 5" by simp
  show ?thesis
  proof (cases "u (line_key line)")
    case None
    with cu same show ?thesis by (simp add: check_uniq_new)
  next
    case (Some f)
    with check_uniq_seen [OF Some cu] same show ?thesis by simp
  qed
qed

lemma process_line_keys:
  assumes "process_line P fc c line (m, u) = Inr (m', u')"
  shows "all_keys m' = all_keys m"
proof -
  from process_line_steps [OF assms(1)] obtain p m1 where
    cu: "check_uniq (line_read line) (line_key line) m u = Inr (m1, u')"
    and cl: "classify P fc c p m1 = Inr m'"
    by blast
  have "(m' j \<noteq> None) = (m j \<noteq> None)" for j
    using classify_keys [OF cl, of j] check_uniq_keys [OF cu, of j] by simp
  then show ?thesis unfolding all_keys_def by simp
qed

lemma process_line_well_formed:
  "process_line P fc c line s = Inr s' \<Longrightarrow> well_formed line"
  by (cases s, cases s') (auto simp: well_formed_to_pair dest!: process_line_steps)

lemma classify_ok:
  assumes "all_keys m"
  shows "\<exists>m'. classify P fc c p m = Inr m'"
proof (cases "category_of P fc c p")
  case None
  then show ?thesis by (simp add: classify_category_of)
next
  case (Some k)
  from category_of_geometry [OF Some] assms have "m k \<noteq> None"
    by (auto simp: geometry_def all_keys_def)
  with add_read_ok [of m k "read p"] Some show ?thesis by (simp add: classify_category_of)
qed

lemma process_line_ok:
  assumes "all_keys m" and "well_formed line"
  shows "\<exists>s'. process_line P fc c line (m, u) = Inr s'"
proof -
  from assms(2) obtain p where len: "length (py_split line) = 13"
    and p: "to_pair (py_split line) = Inr p"
    by (auto simp: well_formed_to_pair)
  from assms(1) have "m 5 \<noteq> None" by (simp add: all_keys_def)
  then obtain m1 u1 where
    cu: "check_uniq (line_read line) (line_key line) m u = Inr (m1, u1)"
    using check_uniq_ok [of m "line_read line" "line_key line" u] by fastforce
  from check_uniq_keys [OF cu] assms(1) have "all_keys m1" by (simp add: all_keys_def)
  from classify_ok [OF this] obtain m2 where "classify P fc c p m1 = Inr m2" by blast
  with len p cu show ?thesis
    by (simp add: process_line_def Let_def line_read_def line_key_def)
qed

lemma process_line_bad:
  assumes "all_keys m" and "\<not> well_formed line"
  shows "process_line P fc c line (m, u) = Inl ValueError"
proof (cases "length (py_split line) = 13")
  case False
  then show ?thesis by (simp add: process_line_def Let_def)
next
  case True
  with assms(2) have tp: "to_pair (py_split line) = Inl ValueError"
    using to_pair_error [of "py_split line"]
    by (cases "to_pair (py_split line)") (auto simp: well_formed_to_pair)
  from assms(1) have "m 5 \<noteq> None" by (simp add: all_keys_def)
  then obtain s1 where
    "check_uniq (line_read line) (line_key line) m u = Inr s1"
    using check_uniq_ok [of m "line_read line" "line_key line" u] by blast
  with True tp show ?thesis
    by (simp add: process_line_def Let_def line_read_def line_key_def)
qed

lemma read_loop_append:
  "read_loop P fc c (xs @ ys) s =
     (case read_loop P fc c xs s of Inl e \<Rightarrow> Inl e | Inr s' \<Rightarrow> read_loop P fc c ys s')"
  by (induction xs arbitrary: s) (auto split: sum.splits)

lemma read_loop_geometry:
  assumes "read_loop P fc c lines (m, u) = Inr (m', u')" and "k \<noteq> 5"
  shows "reads_of m' k =
           reads_of m k \<union> {line_read l |l. l \<in> set lines \<and> line_category P fc c l = Some k}"
  using assms(1)
proof (induction lines arbitrary: m u)
  case Nil
  then show ?case by simp
next
  case (Cons line lines)
  then obtain m1 u1 where step: "process_line P fc c line (m, u) = Inr (m1, u1)"
    and rest: "read_loop P fc c lines (m1, u1) = Inr (m', u')"
    by (auto split: sum.splits)
  from Cons.IH [OF rest] process_line_geometry [OF step assms(2)] show ?case
    by auto
qed

lemma read_loop_keys:
  "read_loop P fc c lines (m, u) = Inr (m', u') \<Longrightarrow> all_keys m' = all_keys m"
proof (induction lines arbitrary: m u)
  case Nil
  then show ?case by simp
next
  case (Cons line lines)
  then obtain m1 u1 where step: "process_line P fc c line (m, u) = Inr (m1, u1)"
    and rest: "read_loop P fc c lines (m1, u1) = Inr (m', u')"
    by (auto split: sum.splits)
  from Cons.IH [OF rest] process_line_keys [OF step] show ?case by simp
qed

lemma read_loop_well_formed:
  "read_loop P fc c lines s = Inr s' \<Longrightarrow> \<forall>line\<in>set lines. well_formed line"
  by (induction lines arbitrary: s) (auto split: sum.splits dest: process_line_well_formed)

lemma read_loop_ok:
  assumes "\<forall>line\<in>set lines. well_formed line" and "all_keys m"
  shows "\<exists>s'. read_loop P fc c lines (m, u) = Inr s'"
  using assms
proof (induction lines arbitrary: m u)
  case Nil
  then show ?case by simp
next
  case (Cons line lines)
  then obtain m1 u1 where step: "process_line P fc c line (m, u) = Inr (m1, u1)"
    using process_line_ok [of m line P fc c u] by fastforce
  with Cons.prems process_line_keys [OF step] have "all_keys m1" by simp
  with Cons.IH [of m1 u1] Cons.prems step show ?case by simp
qed

lemma read_loop_bad:
  assumes "\<not> (\<forall>line\<in>set lines. well_formed line)" and "all_keys m"
  shows "read_loop P fc c lines (m, u) = Inl ValueError"
  using assms
proof (induction lines arbitrary: m u)
  case Nil
  then show ?case by simp
next
  case (Cons line lines)
  show ?case
  proof (cases "well_formed line")
    case False
    with Cons.prems show ?thesis by (simp add: process_line_bad)
  next
    case True
    with Cons.prems obtain m1 u1 where step: "process_line P fc c line (m, u) = Inr (m1, u1)"
      using process_line_ok [of m line P fc c u] by fastforce
    with Cons.prems process_line_keys [OF step] have "all_keys m1" by simp
    moreover from True Cons.prems have "\<not> (\<forall>line\<in>set lines. well_formed line)" by simp
    ultimately show ?thesis using Cons.IH [of m1 u1] step by simp
  qed
qed

lemma process_line_duplicated_mono:
  "process_line P fc c line (m, u) = Inr (m', u') \<Longrightarrow> reads_of m 5 \<subseteq> reads_of m' 5"
  using process_line_duplicated [of P fc c line m u m' u']
  by (auto split: option.splits)

lemma read_loop_duplicated_mono:
  "read_loop P fc c lines (m, u) = Inr (m', u') \<Longrightarrow> reads_of m 5 \<subseteq> reads_of m' 5"
proof (induction lines arbitrary: m u)
  case Nil
  then show ?case by simp
next
  case (Cons line lines)
  then obtain m1 u1 where step: "process_line P fc c line (m, u) = Inr (m1, u1)"
    and rest: "read_loop P fc c lines (m1, u1) = Inr (m', u')"
    by (auto split: sum.splits)
  from Cons.IH [OF rest] process_line_duplicated_mono [OF step] show ?case by blast
qed

lemma process_line_seen:
  assumes "process_line P fc c line (m, u) = Inr (m', u')" and "seen A m u"
  shows "seen (insert line A) m' u'"
proof (cases "u (line_key line)")
  case None
  with process_line_duplicated [OF assms(1)]
  have u': "u' = u(line_key line \<mapsto> line_read line)" and r: "reads_of m' 5 = reads_of m 5"
    by simp_all
  from assms(2) None have "\<forall>l\<in>A. line_key l \<noteq> line_key line"
    by (auto simp: seen_def)
  with assms(2) show ?thesis unfolding seen_def u' r by auto
next
  case (Some f)
  with process_line_duplicated [OF assms(1)]
  have u': "u' = u" and r: "reads_of m' 5 = insert (line_read line) (insert f (reads_of m 5))"
    by simp_all
  from assms(2) Some show ?thesis unfolding seen_def u' r by auto
qed

lemma read_loop_seen:
  "read_loop P fc c lines (m, u) = Inr (m', u') \<Longrightarrow> seen A m u \<Longrightarrow> seen (A \<union> set lines) m' u'"
proof (induction lines arbitrary: m u A)
  case Nil
  then show ?case by simp
next
  case (Cons line lines)
  then obtain m1 u1 where step: "process_line P fc c line (m, u) = Inr (m1, u1)"
    and rest: "read_loop P fc c lines (m1, u1) = Inr (m', u')"
    by (auto split: sum.splits)
  from Cons.IH [OF rest process_line_seen [OF step Cons.prems(2)]] show ?case by simp
qed

lemma read_loop_duplicates:
  assumes run: "read_loop P fc c lines (m, u) = Inr (m', u')"
    and start: "seen {} m u"
    and ij: "i < j" "j < length lines"
    and key: "line_key (lines ! i) = line_key (lines ! j)"
  shows "line_read (lines ! i) \<in> reads_of m' 5 \<and> line_read (lines ! j) \<in> reads_of m' 5"
proof -
  let ?xs = "take j lines" and ?ys = "drop (Suc j) lines"
  have split: "lines = ?xs @ (lines ! j) # ?ys"
    using ij(2) by (simp add: id_take_nth_drop)
  have i_in: "lines ! i \<in> set ?xs"
    using ij by (metis in_set_conv_nth length_take min.absorb2 less_imp_le nth_take)
  from run split have "read_loop P fc c (?xs @ (lines ! j) # ?ys) (m, u) = Inr (m', u')"
    by simp
  then obtain m1 u1 m2 u2 where
    pre: "read_loop P fc c ?xs (m, u) = Inr (m1, u1)"
    and step: "process_line P fc c (lines ! j) (m1, u1) = Inr (m2, u2)"
    and post: "read_loop P fc c ?ys (m2, u2) = Inr (m', u')"
    by (auto simp: read_loop_append split: sum.splits)
  from read_loop_seen [OF pre start] have sn: "seen (set ?xs) m1 u1" by simp
  with i_in key obtain f where f: "u1 (line_key (lines ! j)) = Some f"
    and fi: "f = line_read (lines ! i) \<or> line_read (lines ! i) \<in> reads_of m1 5"
    unfolding seen_def by (metis not_None_eq option.inject)
  from process_line_duplicated [OF step] f
  have "reads_of m2 5 = insert (line_read (lines ! j)) (insert f (reads_of m1 5))"
    by simp
  with fi have "line_read (lines ! i) \<in> reads_of m2 5" "line_read (lines ! j) \<in> reads_of m2 5"
    by auto
  with read_loop_duplicated_mono [OF post] show ?thesis by blast
qed

subsection \<open>The whole run\<close>

lemma reads_of_masked_init: "reads_of masked_init k = {}"
  by (simp add: reads_of_def masked_init_def)

lemma all_keys_masked_init: "all_keys masked_init"
  by (simp add: all_keys_def masked_init_def)

lemma seen_start: "seen {} m u"
  by (simp add: seen_def)

lemma filter_reads_run:
  assumes "filter_reads fl fnam fc P = Inr m"
  shows "\<exists>c u. compute_cut fl (over_represented P) fc = Inr c
           \<and> read_loop P fc c (file_lines fnam) (masked_init, Map.empty) = Inr (m, u)"
  using assms by (auto simp: filter_reads_def split: sum.splits)

lemma filter_reads_geometry:
  assumes "filter_reads fl fnam fc P = Inr m" and "k \<noteq> 5"
    and "compute_cut fl (over_represented P) fc = Inr c"
  shows "r \<in> reads_of m k \<longleftrightarrow>
           (\<exists>l. l \<in> set (file_lines fnam) \<and> line_read l = r \<and> line_category P fc c l = Some k)"
proof -
  from filter_reads_run [OF assms(1)] assms(3) obtain u where
    run: "read_loop P fc c (file_lines fnam) (masked_init, Map.empty) = Inr (m, u)"
    by auto
  have "reads_of m k =
          {line_read l |l. l \<in> set (file_lines fnam) \<and> line_category P fc c l = Some k}"
    using read_loop_geometry [OF run assms(2)] by (simp add: reads_of_masked_init)
  then show ?thesis by auto
qed

lemma filter_reads_category:
  assumes "filter_reads fl fnam fc P = Inr m" and "k \<noteq> 5"
    and "compute_cut fl (over_represented P) fc = Inr c"
    and "line \<in> set (file_lines fnam)"
  shows "line_category P fc c line = Some k \<Longrightarrow> line_read line \<in> reads_of m k"
    and "distinct (map line_read (file_lines fnam)) \<Longrightarrow> line_read line \<in> reads_of m k
           \<Longrightarrow> line_category P fc c line = Some k"
proof -
  note eq = filter_reads_geometry [OF assms(1,2,3)]
  show "line_category P fc c line = Some k \<Longrightarrow> line_read line \<in> reads_of m k"
    using assms(4) eq [of "line_read line"] by blast
  assume d: "distinct (map line_read (file_lines fnam))"
  assume "line_read line \<in> reads_of m k"
  with eq [of "line_read line"] obtain l where l: "l \<in> set (file_lines fnam)"
    "line_read l = line_read line" "line_category P fc c l = Some k"
    by blast
  from d have "inj_on line_read (set (file_lines fnam))" by (simp add: distinct_map)
  from inj_onD [OF this l(2) l(1) assms(4)] l(3) show "line_category P fc c line = Some k"
    by simp
qed

lemma filter_reads_keys:
  assumes "filter_reads fl fnam fc P = Inr m"
  shows "all_keys m"
proof -
  from filter_reads_run [OF assms] obtain c u where
    "read_loop P fc c (file_lines fnam) (masked_init, Map.empty) = Inr (m, u)"
    by blast
  from read_loop_keys [OF this] all_keys_masked_init show ?thesis by simp
qed

lemma to_pair_fields:
  assumes "to_pair fs = Inr p"
  shows "read p = fs ! 0 \<and> cr1 p = fs ! 1 \<and> py_int (fs ! 2) = Some (ps1 p)
       \<and> py_int (fs ! 3) = Some (sd1 p) \<and> py_int (fs ! 5) = Some (rs1 p)
       \<and> py_int (fs ! 6) = Some (re1 p) \<and> cr2 p = fs ! 7 \<and> py_int (fs ! 8) = Some (ps2 p)
       \<and> py_int (fs ! 9) = Some (sd2 p) \<and> py_int (fs ! 11) = Some (rs2 p)
       \<and> py_int (fs ! 12) = Some (re2 p)"
  using assms by (auto simp: to_pair_def split: option.splits)

text \<open>The definitions unfolded to evaluate a run on a given file.\<close>

lemmas run_defs = filter_reads_def compute_cut_def cut_index_def py_int_of_float_def py_index_def
  process_line_def check_uniq_def add_read_def classify_def to_pair_def py_split_def is_space_def
  py_int_def digit_def uniq_key_def py_eq_bool_int_def frag_get_def masked_init_def
  default_params_def NL_def TAB_def reads_of_def Let_def example_params_def
  frags_one_read_def frags_two_reads_def frags_three_reads_def frags_trans_def frags_cross_def
  frags_five_reads_def frags_padded_def
  line_read_def line_key_def

subsection \<open>Positions written in decimal\<close>

declare str_nat.simps [simp del]

lemma digit_digit_char: "d < 10 \<Longrightarrow> digit (digit_char d) = Some (int d)"
  by (simp add: digit_def digit_char_def Let_def)

lemma digits_append:
  "digits acc (xs @ ys) = (case digits acc xs of None \<Rightarrow> None | Some a \<Rightarrow> digits a ys)"
  by (induction xs arbitrary: acc) (auto split: option.splits)

lemma digits_str_nat: "digits acc (str_nat n) = Some (acc * 10 ^ length (str_nat n) + int n)"
proof (induction n arbitrary: acc rule: str_nat.induct)
  case (1 n)
  show ?case
  proof (cases "n < 10")
    case True
    then show ?thesis by (simp add: str_nat.simps [of n] digit_digit_char)
  next
    case False
    have "int n = int (n div 10) * 10 + int (n mod 10)"
      by (metis mult.commute of_nat_add of_nat_mult of_nat_numeral div_mult_mod_eq)
    with False "1.IH" [OF False] show ?thesis
      by (simp add: str_nat.simps [of n] digits_append digit_digit_char algebra_simps)
  qed
qed

lemma str_nat_hd: "\<exists>c cs. str_nat n = c # cs \<and> digit c \<noteq> None"
proof (induction n rule: str_nat.induct)
  case (1 n)
  show ?case
  proof (cases "n < 10")
    case True
    then show ?thesis by (simp add: str_nat.simps [of n] digit_digit_char)
  next
    case False
    with "1.IH" show ?thesis by (auto simp: str_nat.simps [of n])
  qed
qed

lemma digit_sign: "digit (CHR ''-'') = None" "digit (CHR ''+'') = None"
  by (simp_all add: digit_def)

lemma py_int_str_nat: "py_int (str_nat n) = Some (int n)"
proof -
  from str_nat_hd [of n] obtain c cs where s: "str_nat n = c # cs" and d: "digit c \<noteq> None"
    by blast
  from d digit_sign have "c \<noteq> CHR ''-''" "c \<noteq> CHR ''+''" by auto
  with s have "py_int (str_nat n) = digits 0 (str_nat n)" by (simp add: py_int_def)
  then show ?thesis by (simp add: digits_str_nat)
qed

lemma py_int_py_str: "py_int (py_str i) = Some i"
proof (cases "i < 0")
  case True
  from str_nat_hd [of "nat (- i)"] have "str_nat (nat (- i)) \<noteq> []" by auto
  with True show ?thesis
    by (simp add: py_str_def py_int_def digits_str_nat)
next
  case False
  then show ?thesis by (simp add: py_str_def py_int_str_nat)
qed

lemma canonical_py_str: "canonical (py_str i)"
  by (simp add: canonical_def py_int_py_str)

lemma line_key_pair_key:
  assumes "to_pair (py_split line) = Inr p" and "canonical_positions line"
  shows "line_key line = pair_key p"
proof -
  note f = to_pair_fields [OF assms(1)]
  from f assms(2) have "py_str (ps1 p) = py_split line ! 2" "py_str (ps2 p) = py_split line ! 8"
    by (simp_all add: canonical_positions_def canonical_def)
  with f show ?thesis by (simp add: line_key_def pair_key_def Let_def)
qed

subsection \<open>The categories\<close>

text \<open>C3: when the read ids of the lines of the file are pairwise different, after a run of
  \<open>filter_reads\<close> no read id is in two of the categories 1, 2, 3, 4, 6, 7, 8 and 9. (In the
  example that follows, \<open>r1\<close> and \<open>r2\<close> are each in one of them and both are in category 5
  as well.)\<close>

theorem geometry_exclusive:
  assumes "filter_reads fl fnam fc P = Inr m"
    and "distinct (map line_read (file_lines fnam))"
    and "k1 \<in> geometry" and "k2 \<in> geometry" and "k1 \<noteq> k2"
  shows "reads_of m k1 \<inter> reads_of m k2 = {}"
proof -
  from assms(3,4) have n5: "k1 \<noteq> 5" "k2 \<noteq> 5" by (auto simp: geometry_def)
  from filter_reads_run [OF assms(1)] obtain c where
    c: "compute_cut fl (over_represented P) fc = Inr c"
    by blast
  from assms(2) have inj: "inj_on line_read (set (file_lines fnam))" by (simp add: distinct_map)
  have False if r1: "r \<in> reads_of m k1" and r2: "r \<in> reads_of m k2" for r
  proof -
    from filter_reads_geometry [OF assms(1) n5(1) c, of r] r1 obtain l where
      l: "l \<in> set (file_lines fnam)" "line_read l = r" "line_category P fc c l = Some k1"
      by blast
    from filter_reads_geometry [OF assms(1) n5(2) c, of r] r2 obtain l' where
      l': "l' \<in> set (file_lines fnam)" "line_read l' = r" "line_category P fc c l' = Some k2"
      by blast
    from l(2) l'(2) have "line_read l = line_read l'" by simp
    from inj_onD [OF inj this l(1) l'(1)] l(3) l'(3) assms(5) show False by simp
  qed
  then show ?thesis by blast
qed

theorem geometry_exclusive_witness:
  "\<exists>m. filter_reads (\<lambda>x. x) (self_circle_line @ dangling_end_line) frags_two_reads example_params = Inr m
     \<and> reads_of m 1 = {''r1''} \<and> reads_of m 2 = {''r2''} \<and> reads_of m 5 = {''r1'', ''r2''}
     \<and> reads_of m 1 \<inter> reads_of m 2 = {}"
proof -
  let ?F = "self_circle_line @ dangling_end_line"
  have "\<exists>m. filter_reads (\<lambda>x. x) ?F frags_two_reads example_params = Inr m
     \<and> reads_of m 1 = {''r1''} \<and> reads_of m 2 = {''r2''} \<and> reads_of m 5 = {''r1'', ''r2''}"
    by (simp add: self_circle_line_def dangling_end_line_def run_defs)
  then obtain m where run: "filter_reads (\<lambda>x. x) ?F frags_two_reads example_params = Inr m"
    and r: "reads_of m 1 = {''r1''}" "reads_of m 2 = {''r2''}" "reads_of m 5 = {''r1'', ''r2''}"
    by (elim exE conjE)
  have d: "distinct (map line_read (file_lines ?F))"
    by (simp add: self_circle_line_def dangling_end_line_def run_defs)
  have "reads_of m 1 \<inter> reads_of m 2 = {}"
    by (rule geometry_exclusive [OF run d]) (simp_all add: geometry_def)
  with run r show ?thesis by (intro exI [of _ m] conjI)
qed

text \<open>C4, as amended: when two lines of the file, at the places \<open>i < j\<close>, have the same
  key as line 79 computes it (the sorted pair of chromosome followed by the position field
  as it is written in the file, for the two ends), the read ids of both are in category 5
  after a run of \<open>filter_reads\<close>, whatever the chromosomes and the other fields are; either
  of the two reads may be the one at \<open>i\<close>. For read pairs \<open>A\<close> and \<open>B\<close> whose positions
  are written in canonical decimal this is the key computed from the positions with
  \<open>str\<close>.\<close>

theorem duplicates_masked:
  assumes "filter_reads fl fnam fc P = Inr m"
    and "i < j" and "j < length (file_lines fnam)"
  shows "(line_key (file_lines fnam ! i) = line_key (file_lines fnam ! j) \<longrightarrow>
            line_read (file_lines fnam ! i) \<in> reads_of m 5
          \<and> line_read (file_lines fnam ! j) \<in> reads_of m 5)
       \<and> (\<forall>A B. to_pair (py_split (file_lines fnam ! i)) = Inr A
              \<and> to_pair (py_split (file_lines fnam ! j)) = Inr B
              \<and> canonical_positions (file_lines fnam ! i)
              \<and> canonical_positions (file_lines fnam ! j)
              \<and> pair_key A = pair_key B \<longrightarrow>
            read A \<in> reads_of m 5 \<and> read B \<in> reads_of m 5)"
proof -
  let ?a = "file_lines fnam ! i" and ?b = "file_lines fnam ! j"
  from filter_reads_run [OF assms(1)] obtain c u where
    run: "read_loop P fc c (file_lines fnam) (masked_init, Map.empty) = Inr (m, u)"
    by blast
  have raw: "line_read ?a \<in> reads_of m 5 \<and> line_read ?b \<in> reads_of m 5"
    if "line_key ?a = line_key ?b"
    using read_loop_duplicates [OF run seen_start assms(2,3) that] .
  have "read A \<in> reads_of m 5 \<and> read B \<in> reads_of m 5"
    if A: "to_pair (py_split ?a) = Inr A" and B: "to_pair (py_split ?b) = Inr B"
      and ca: "canonical_positions ?a" and cb: "canonical_positions ?b"
      and k: "pair_key A = pair_key B" for A B
  proof -
    from line_key_pair_key [OF A ca] line_key_pair_key [OF B cb] k
    have "line_key ?a = line_key ?b" by simp
    from raw [OF this] to_pair_read [OF A] to_pair_read [OF B] show ?thesis
      by (simp add: line_read_def)
  qed
  with raw show ?thesis by blast
qed

theorem duplicates_masked_witness:
  "\<exists>m. filter_reads (\<lambda>x. x) (trans_line @ self_circle_line @ trans_line_swapped)
          frags_trans example_params = Inr m
     \<and> line_key trans_line = line_key trans_line_swapped
     \<and> ''r4'' \<in> reads_of m 5 \<and> ''r5'' \<in> reads_of m 5 \<and> ''r1'' \<notin> reads_of m 5"
proof -
  let ?F = "trans_line @ self_circle_line @ trans_line_swapped"
  have "\<exists>m. filter_reads (\<lambda>x. x) ?F frags_trans example_params = Inr m \<and> ''r1'' \<notin> reads_of m 5"
    by (simp add: trans_line_def self_circle_line_def trans_line_swapped_def run_defs)
  then obtain m where run: "filter_reads (\<lambda>x. x) ?F frags_trans example_params = Inr m"
    and r1: "''r1'' \<notin> reads_of m 5"
    by (elim exE conjE)
  have ls: "file_lines ?F = [trans_line, self_circle_line, trans_line_swapped]"
    by (simp add: trans_line_def self_circle_line_def trans_line_swapped_def NL_def)
  have k: "line_key trans_line = line_key trans_line_swapped"
    by (simp add: trans_line_def trans_line_swapped_def run_defs)
  have rd: "line_read trans_line = ''r4''" "line_read trans_line_swapped = ''r5''"
    by (simp_all add: trans_line_def trans_line_swapped_def run_defs)
  have "line_read (file_lines ?F ! 0) \<in> reads_of m 5 \<and> line_read (file_lines ?F ! 2) \<in> reads_of m 5"
  proof (rule duplicates_masked [OF run, of 0 2, THEN conjunct1, THEN mp])
    show "(0::nat) < 2" by simp
    show "2 < length (file_lines ?F)" unfolding ls by simp
    show "line_key (file_lines ?F ! 0) = line_key (file_lines ?F ! 2)" unfolding ls using k by simp
  qed
  then have "''r4'' \<in> reads_of m 5" "''r5'' \<in> reads_of m 5"
    unfolding ls using rd by simp_all
  with run k r1 show ?thesis by (intro exI [of _ m] conjI)
qed

text \<open>C4 as stated fails when a position is not written as \<open>str\<close> writes it: the reads
  \<open>rP\<close> and \<open>rQ\<close> have the same chromosomes and positions, hence the same key
  \<open>chrom + str(pos)\<close>, but the position 250 of \<open>rQ\<close> is written \<open>0250\<close>; line 79
  concatenates the fields before they are converted, the keys of the two lines differ, and
  category 5 is empty after the run.\<close>

theorem duplicates_padded_counterexample:
  "to_pair (py_split plain_line) =
     Inr \<lparr>read = ''rP'', cr1 = ''chr1'', ps1 = 250, sd1 = 0, rs1 = 100, re1 = 400,
          cr2 = ''chr2'', ps2 = 700, sd2 = 1, rs2 = 500, re2 = 900\<rparr>
   \<and> to_pair (py_split padded_line) =
     Inr \<lparr>read = ''rQ'', cr1 = ''chr1'', ps1 = 250, sd1 = 0, rs1 = 100, re1 = 400,
          cr2 = ''chr2'', ps2 = 700, sd2 = 1, rs2 = 500, re2 = 900\<rparr>
   \<and> pair_key \<lparr>read = ''rP'', cr1 = ''chr1'', ps1 = 250, sd1 = 0, rs1 = 100, re1 = 400,
          cr2 = ''chr2'', ps2 = 700, sd2 = 1, rs2 = 500, re2 = 900\<rparr> = (''chr1250'', ''chr2700'')
   \<and> pair_key \<lparr>read = ''rQ'', cr1 = ''chr1'', ps1 = 250, sd1 = 0, rs1 = 100, re1 = 400,
          cr2 = ''chr2'', ps2 = 700, sd2 = 1, rs2 = 500, re2 = 900\<rparr> = (''chr1250'', ''chr2700'')
   \<and> line_key plain_line = (''chr1250'', ''chr2700'')
   \<and> line_key padded_line = (''chr10250'', ''chr2700'')
   \<and> reads_after (filter_reads (\<lambda>x. x) (plain_line @ padded_line) frags_padded example_params) 5
     = Inr {}"
  by (simp add: plain_line_def padded_line_def reads_after_def pair_key_def py_str_def
      str_nat.simps digit_char_def char_of_def bit_Suc_0_iff run_defs)

lemma category_of_same_fragment:
  assumes "cr1 p = cr2 p" and "re1 p = re2 p"
  shows "category_of P fc c p =
           Some (if sd1 p \<noteq> sd2 p then (if py_eq_bool_int (ps2 p > ps1 p) (sd2 p) then 1 else 2) else 4)"
  using assms by (simp add: category_of_def)

lemma same_fragment_category:
  assumes run: "filter_reads fl fnam fc P = Inr m"
    and line: "line \<in> set (file_lines fnam)"
    and pair: "to_pair (py_split line) = Inr p"
    and same: "cr1 p = cr2 p" "re1 p = re2 p"
  shows "read p \<in> reads_of m
           (if sd1 p \<noteq> sd2 p then (if py_eq_bool_int (ps2 p > ps1 p) (sd2 p) then 1 else 2) else 4)"
    and "distinct (map line_read (file_lines fnam)) \<Longrightarrow> k \<noteq> 5 \<Longrightarrow> read p \<in> reads_of m k \<Longrightarrow>
         k = (if sd1 p \<noteq> sd2 p then (if py_eq_bool_int (ps2 p > ps1 p) (sd2 p) then 1 else 2) else 4)"
proof -
  let ?K = "if sd1 p \<noteq> sd2 p then (if py_eq_bool_int (ps2 p > ps1 p) (sd2 p) then 1 else 2) else 4 :: int"
  from filter_reads_run [OF run] obtain c where
    c: "compute_cut fl (over_represented P) fc = Inr c"
    by blast
  from pair have rd: "read p = line_read line" by (simp add: to_pair_read line_read_def)
  from pair have "line_category P fc c line = category_of P fc c p"
    by (simp add: line_category_def)
  with category_of_same_fragment [OF same] have cat: "line_category P fc c line = Some ?K"
    by simp
  have K5: "?K \<noteq> 5" by simp
  from filter_reads_category(1) [OF run K5 c line cat] show "read p \<in> reads_of m ?K"
    by (simp only: rd)
  assume d: "distinct (map line_read (file_lines fnam))" and k5: "k \<noteq> 5"
    and mem: "read p \<in> reads_of m k"
  from mem have "line_read line \<in> reads_of m k" by (simp only: rd)
  from filter_reads_category(2) [OF run k5 c line d this] cat show "k = ?K" by simp
qed

text \<open>C6: for a line of the file whose two ends are on the same chromosome and have the same
  fragment end, after a run of \<open>filter_reads\<close> the read id is in category 1 if the strands
  differ and \<open>(ps2 > ps1) == sd2\<close>, that is \<open>ps2 > ps1\<close> and \<open>sd2 = 1\<close>, or \<open>ps2 \<le> ps1\<close>
  and \<open>sd2 = 0\<close>; in category 2 if the strands differ and this does not hold; and in
  category 4 if the strands are equal. When the read ids of the file are pairwise
  different, it is in these categories in these cases only.\<close>

theorem same_fragment_rule:
  assumes run: "filter_reads fl fnam fc P = Inr m"
    and line: "line \<in> set (file_lines fnam)"
    and pair: "to_pair (py_split line) = Inr p"
    and same: "cr1 p = cr2 p" "re1 p = re2 p"
  shows "(sd1 p \<noteq> sd2 p \<and> (ps1 p < ps2 p \<and> sd2 p = 1 \<or> ps2 p \<le> ps1 p \<and> sd2 p = 0)
            \<longrightarrow> read p \<in> reads_of m 1)
       \<and> (sd1 p \<noteq> sd2 p \<and> \<not> (ps1 p < ps2 p \<and> sd2 p = 1 \<or> ps2 p \<le> ps1 p \<and> sd2 p = 0)
            \<longrightarrow> read p \<in> reads_of m 2)
       \<and> (sd1 p = sd2 p \<longrightarrow> read p \<in> reads_of m 4)
       \<and> (distinct (map line_read (file_lines fnam)) \<longrightarrow>
            (read p \<in> reads_of m 1 \<longleftrightarrow>
               sd1 p \<noteq> sd2 p \<and> (ps1 p < ps2 p \<and> sd2 p = 1 \<or> ps2 p \<le> ps1 p \<and> sd2 p = 0))
          \<and> (read p \<in> reads_of m 2 \<longleftrightarrow>
               sd1 p \<noteq> sd2 p \<and> \<not> (ps1 p < ps2 p \<and> sd2 p = 1 \<or> ps2 p \<le> ps1 p \<and> sd2 p = 0))
          \<and> (read p \<in> reads_of m 4 \<longleftrightarrow> sd1 p = sd2 p))"
proof -
  let ?out = "ps1 p < ps2 p \<and> sd2 p = 1 \<or> ps2 p \<le> ps1 p \<and> sd2 p = 0"
  let ?K = "if sd1 p \<noteq> sd2 p then (if ?out then 1 else 2) else 4 :: int"
  have out: "py_eq_bool_int (ps2 p > ps1 p) (sd2 p) = ?out"
    by (auto simp: py_eq_bool_int_def)
  from same_fragment_category(1) [OF assms] have inK: "read p \<in> reads_of m ?K"
    by (simp only: out)
  have only: "k = ?K" if "distinct (map line_read (file_lines fnam))"
    and "k \<noteq> 5" and "read p \<in> reads_of m k" for k
    using same_fragment_category(2) [OF assms that] by (simp only: out)
  have a: "sd1 p \<noteq> sd2 p \<and> ?out \<longrightarrow> read p \<in> reads_of m 1"
    using inK by auto
  have b: "sd1 p \<noteq> sd2 p \<and> \<not> ?out \<longrightarrow> read p \<in> reads_of m 2"
    using inK by auto
  have e: "sd1 p = sd2 p \<longrightarrow> read p \<in> reads_of m 4"
    using inK by auto
  have f: "distinct (map line_read (file_lines fnam)) \<longrightarrow>
            (read p \<in> reads_of m 1 \<longleftrightarrow> sd1 p \<noteq> sd2 p \<and> ?out)
          \<and> (read p \<in> reads_of m 2 \<longleftrightarrow> sd1 p \<noteq> sd2 p \<and> \<not> ?out)
          \<and> (read p \<in> reads_of m 4 \<longleftrightarrow> sd1 p = sd2 p)"
  proof
    assume d: "distinct (map line_read (file_lines fnam))"
    have o1: "read p \<in> reads_of m 1 \<Longrightarrow> 1 = ?K" using only [OF d, of 1] by simp
    have o2: "read p \<in> reads_of m 2 \<Longrightarrow> 2 = ?K" using only [OF d, of 2] by simp
    have o4: "read p \<in> reads_of m 4 \<Longrightarrow> 4 = ?K" using only [OF d, of 4] by simp
    show "(read p \<in> reads_of m 1 \<longleftrightarrow> sd1 p \<noteq> sd2 p \<and> ?out)
          \<and> (read p \<in> reads_of m 2 \<longleftrightarrow> sd1 p \<noteq> sd2 p \<and> \<not> ?out)
          \<and> (read p \<in> reads_of m 4 \<longleftrightarrow> sd1 p = sd2 p)"
      using a b e o1 o2 o4 by (auto split: if_splits)
  qed
  from a b e f show ?thesis by (intro conjI)
qed

theorem same_fragment_rule_witness:
  "\<exists>m. filter_reads (\<lambda>x. x)
          (self_circle_line @ dangling_end_line @ error_line @ reversed_dangling_line
             @ reversed_circle_line)
          frags_five_reads example_params = Inr m
     \<and> ''r1'' \<in> reads_of m 1 \<and> ''r1'' \<notin> reads_of m 2
     \<and> ''r2'' \<in> reads_of m 2 \<and> ''r2'' \<notin> reads_of m 1
     \<and> ''r3'' \<in> reads_of m 4
     \<and> ''r8'' \<in> reads_of m 2 \<and> ''r8'' \<notin> reads_of m 1
     \<and> ''r9'' \<in> reads_of m 1 \<and> ''r9'' \<notin> reads_of m 2"
proof -
  let ?F = "self_circle_line @ dangling_end_line @ error_line @ reversed_dangling_line
             @ reversed_circle_line"
  have "\<exists>m. filter_reads (\<lambda>x. x) ?F frags_five_reads example_params = Inr m"
    by (simp add: self_circle_line_def dangling_end_line_def error_line_def
        reversed_dangling_line_def reversed_circle_line_def run_defs)
  then obtain m where run: "filter_reads (\<lambda>x. x) ?F frags_five_reads example_params = Inr m" ..
  have ls: "file_lines ?F =
      [self_circle_line, dangling_end_line, error_line, reversed_dangling_line, reversed_circle_line]"
    by (simp add: self_circle_line_def dangling_end_line_def error_line_def
        reversed_dangling_line_def reversed_circle_line_def NL_def)
  have in1: "self_circle_line \<in> set (file_lines ?F)"
    and in2: "dangling_end_line \<in> set (file_lines ?F)"
    and in3: "error_line \<in> set (file_lines ?F)"
    and in8: "reversed_dangling_line \<in> set (file_lines ?F)"
    and in9: "reversed_circle_line \<in> set (file_lines ?F)"
    unfolding ls by simp_all
  have d: "distinct (map line_read (file_lines ?F))"
    unfolding ls
    by (simp add: self_circle_line_def dangling_end_line_def error_line_def
        reversed_dangling_line_def reversed_circle_line_def run_defs)
  have p1: "to_pair (py_split self_circle_line) =
      Inr \<lparr>read = ''r1'', cr1 = ''chr1'', ps1 = 120, sd1 = 0, rs1 = 100, re1 = 400,
           cr2 = ''chr1'', ps2 = 380, sd2 = 1, rs2 = 100, re2 = 400\<rparr>"
    by (simp add: self_circle_line_def run_defs)
  have p2: "to_pair (py_split dangling_end_line) =
      Inr \<lparr>read = ''r2'', cr1 = ''chr1'', ps1 = 120, sd1 = 1, rs1 = 100, re1 = 400,
           cr2 = ''chr1'', ps2 = 380, sd2 = 0, rs2 = 100, re2 = 400\<rparr>"
    by (simp add: dangling_end_line_def run_defs)
  have p3: "to_pair (py_split error_line) =
      Inr \<lparr>read = ''r3'', cr1 = ''chr1'', ps1 = 130, sd1 = 1, rs1 = 100, re1 = 400,
           cr2 = ''chr1'', ps2 = 390, sd2 = 1, rs2 = 100, re2 = 400\<rparr>"
    by (simp add: error_line_def run_defs)
  have p8: "to_pair (py_split reversed_dangling_line) =
      Inr \<lparr>read = ''r8'', cr1 = ''chr1'', ps1 = 380, sd1 = 0, rs1 = 100, re1 = 400,
           cr2 = ''chr1'', ps2 = 120, sd2 = 1, rs2 = 100, re2 = 400\<rparr>"
    by (simp add: reversed_dangling_line_def run_defs)
  have p9: "to_pair (py_split reversed_circle_line) =
      Inr \<lparr>read = ''r9'', cr1 = ''chr1'', ps1 = 380, sd1 = 1, rs1 = 100, re1 = 400,
           cr2 = ''chr1'', ps2 = 120, sd2 = 0, rs2 = 100, re2 = 400\<rparr>"
    by (simp add: reversed_circle_line_def run_defs)
  from same_fragment_rule [OF run in1 p1] d
  have r1: "''r1'' \<in> reads_of m 1" "''r1'' \<notin> reads_of m 2" by simp_all
  from same_fragment_rule [OF run in2 p2] d
  have r2: "''r2'' \<in> reads_of m 2" "''r2'' \<notin> reads_of m 1" by simp_all
  from same_fragment_rule [OF run in3 p3]
  have r3: "''r3'' \<in> reads_of m 4" by simp
  from same_fragment_rule [OF run in8 p8] d
  have r8: "''r8'' \<in> reads_of m 2" "''r8'' \<notin> reads_of m 1" by simp_all
  from same_fragment_rule [OF run in9 p9] d
  have r9: "''r9'' \<in> reads_of m 1" "''r9'' \<notin> reads_of m 2" by simp_all
  from run r1 r2 r3 r8 r9 show ?thesis by (intro exI [of _ m] conjI)
qed

lemma category_of_cross_fragment:
  assumes "cr1 p = cr2 p" and "re1 p \<noteq> re2 p"
  shows "category_of P fc c p = Some 3 \<longleftrightarrow>
           \<bar>ps1 p - ps2 p\<bar> < max_molecule_length P \<and> ps1 p < ps2 p \<and> ps1 p \<noteq> sd2 p"
proof -
  have chain: "((if A then None else if B then X else if C then Some 3 else if D then Some 6
        else if E then Some 7 else if F then Some 8 else if G then Some 9 else None) = Some (3::int)) = C"
    if "\<not> A" and "\<not> B" for A B C D E F G X
    using that by simp
  have "category_of P fc c p = Some 3 \<longleftrightarrow>
          \<bar>ps1 p - ps2 p\<bar> < max_molecule_length P \<and> ps1 p \<noteq> ps2 p \<and> (ps2 p > ps1 p \<and> ps1 p \<noteq> sd2 p)"
    unfolding category_of_def by (rule chain) (use assms in simp_all)
  then show ?thesis by auto
qed

text \<open>C7 does not hold of the code: line 103 reads \<open>ps2 > ps1 != sd2\<close>, the chain
  \<open>ps2 > ps1 and ps1 != sd2\<close>, which compares a position with a strand. Here the read
  \<open>rA\<close> (positions 100 and 200, second strand 1, fragments ending at 150 and 400), for which
  \<open>(ps2 > ps1) != sd2\<close> is false, is put in category 3, and the read \<open>rB\<close> (positions 210
  and 110, second strand 1), for which it is true, is not.\<close>

theorem cross_fragment_rule_evaluated:
  "\<exists>m. filter_reads (\<lambda>x. x) (outward_line @ inward_line) frags_cross example_params = Inr m
     \<and> reads_of m 3 = {''rA''}
     \<and> reads_of m 1 = {} \<and> reads_of m 2 = {} \<and> reads_of m 4 = {} \<and> reads_of m 5 = {}
     \<and> reads_of m 6 = {} \<and> reads_of m 7 = {} \<and> reads_of m 8 = {} \<and> reads_of m 9 = {}"
  by (simp add: outward_line_def inward_line_def run_defs)

subsection \<open>The shape of the input\<close>

text \<open>C8, as amended: once the cut is computed, \<open>filter_reads\<close> returns a classification when
  every line of the file has exactly thirteen whitespace-separated fields, of which the
  positions, strands and fragment bounds are integers; it raises \<open>ValueError\<close>, and returns
  no classification, when some line has another number of fields (fewer or more than
  thirteen) or a numeric field that is not an integer. The fields are taken in the order
  read id, chromosome 1, position 1, strand 1, ignored, fragment start 1, fragment end 1,
  chromosome 2, position 2, strand 2, ignored, fragment start 2, fragment end 2.\<close>

theorem filter_reads_input_shape:
  assumes "compute_cut fl (over_represented P) fc = Inr c"
  shows "((\<forall>line\<in>set (file_lines fnam). well_formed line) \<longrightarrow> (\<exists>m. filter_reads fl fnam fc P = Inr m))
       \<and> ((\<exists>line\<in>set (file_lines fnam). length (py_split line) \<noteq> 13)
            \<longrightarrow> filter_reads fl fnam fc P = Inl ValueError)
       \<and> ((\<exists>line\<in>set (file_lines fnam). \<not> well_formed line)
            \<longrightarrow> filter_reads fl fnam fc P = Inl ValueError)
       \<and> (\<forall>line p. to_pair (py_split line) = Inr p \<longrightarrow>
             read p = py_split line ! 0 \<and> cr1 p = py_split line ! 1
           \<and> py_int (py_split line ! 2) = Some (ps1 p) \<and> py_int (py_split line ! 3) = Some (sd1 p)
           \<and> py_int (py_split line ! 5) = Some (rs1 p) \<and> py_int (py_split line ! 6) = Some (re1 p)
           \<and> cr2 p = py_split line ! 7
           \<and> py_int (py_split line ! 8) = Some (ps2 p) \<and> py_int (py_split line ! 9) = Some (sd2 p)
           \<and> py_int (py_split line ! 11) = Some (rs2 p) \<and> py_int (py_split line ! 12) = Some (re2 p))"
proof -
  have bad: "filter_reads fl fnam fc P = Inl ValueError"
    if "\<exists>line\<in>set (file_lines fnam). \<not> well_formed line"
  proof -
    from that have "\<not> (\<forall>line\<in>set (file_lines fnam). well_formed line)" by simp
    from read_loop_bad [OF this all_keys_masked_init, of P fc c Map.empty] assms
    show ?thesis by (simp add: filter_reads_def)
  qed
  have a: "(\<forall>line\<in>set (file_lines fnam). well_formed line) \<longrightarrow> (\<exists>m. filter_reads fl fnam fc P = Inr m)"
  proof
    assume "\<forall>line\<in>set (file_lines fnam). well_formed line"
    from read_loop_ok [OF this all_keys_masked_init, of P fc c Map.empty] assms
    show "\<exists>m. filter_reads fl fnam fc P = Inr m"
      by (auto simp: filter_reads_def)
  qed
  have b: "(\<exists>line\<in>set (file_lines fnam). length (py_split line) \<noteq> 13)
            \<longrightarrow> filter_reads fl fnam fc P = Inl ValueError"
  proof
    assume "\<exists>line\<in>set (file_lines fnam). length (py_split line) \<noteq> 13"
    then have "\<exists>line\<in>set (file_lines fnam). \<not> well_formed line"
      by (auto simp: well_formed_def Let_def)
    then show "filter_reads fl fnam fc P = Inl ValueError" by (rule bad)
  qed
  have c: "(\<exists>line\<in>set (file_lines fnam). \<not> well_formed line)
            \<longrightarrow> filter_reads fl fnam fc P = Inl ValueError"
    using bad by blast
  have d: "\<forall>line p. to_pair (py_split line) = Inr p \<longrightarrow>
             read p = py_split line ! 0 \<and> cr1 p = py_split line ! 1
           \<and> py_int (py_split line ! 2) = Some (ps1 p) \<and> py_int (py_split line ! 3) = Some (sd1 p)
           \<and> py_int (py_split line ! 5) = Some (rs1 p) \<and> py_int (py_split line ! 6) = Some (re1 p)
           \<and> cr2 p = py_split line ! 7
           \<and> py_int (py_split line ! 8) = Some (ps2 p) \<and> py_int (py_split line ! 9) = Some (sd2 p)
           \<and> py_int (py_split line ! 11) = Some (rs2 p) \<and> py_int (py_split line ! 12) = Some (re2 p)"
    using to_pair_fields by blast
  from a b c d show ?thesis by (intro conjI)
qed

theorem filter_reads_input_shape_witness:
  "(\<exists>m. filter_reads (\<lambda>x. x) (self_circle_line @ dangling_end_line) frags_two_reads example_params = Inr m)
   \<and> filter_reads (\<lambda>x. x) (self_circle_line @ short_line) frags_two_reads example_params = Inl ValueError
   \<and> length (py_split short_line) = 12"
proof -
  have c: "compute_cut (\<lambda>x. x) (over_represented example_params) frags_two_reads = Inr 4"
    by (simp add: run_defs)
  have good: "\<forall>line\<in>set (file_lines (self_circle_line @ dangling_end_line)). well_formed line"
    by (simp add: self_circle_line_def dangling_end_line_def well_formed_def run_defs)
  have bad: "\<exists>line\<in>set (file_lines (self_circle_line @ short_line)). length (py_split line) \<noteq> 13"
    by (simp add: self_circle_line_def short_line_def run_defs)
  have len: "length (py_split short_line) = 12"
    by (simp add: short_line_def run_defs)
  note 1 = filter_reads_input_shape [OF c, of "self_circle_line @ dangling_end_line",
      THEN conjunct1, THEN mp, OF good]
  note 2 = filter_reads_input_shape [OF c, of "self_circle_line @ short_line",
      THEN conjunct2, THEN conjunct1, THEN mp, OF bad]
  from 1 2 len show ?thesis by (intro conjI)
qed

text \<open>C8 as stated fails on a line with more than thirteen fields: the unpacking of line 78
  raises \<open>ValueError\<close> on fourteen fields.\<close>

theorem filter_reads_long_line_counterexample:
  "length (py_split long_line) = 14
   \<and> filter_reads (\<lambda>x. x) long_line frags_one_read example_params = Inl ValueError"
  by (simp add: long_line_def run_defs)

subsection \<open>The cut\<close>

lemma py_int_of_float_mono: "x \<le> y \<Longrightarrow> py_int_of_float x \<le> py_int_of_float y"
proof -
  assume xy: "x \<le> y"
  consider "0 \<le> x" | "x < 0" "0 \<le> y" | "y < 0" using xy by linarith
  then show ?thesis
  proof cases
    case 1
    with xy show ?thesis by (simp add: py_int_of_float_def floor_mono)
  next
    case 2
    then have "\<lceil>x\<rceil> \<le> 0" "0 \<le> \<lfloor>y\<rfloor>" by (simp_all add: ceiling_le_iff)
    then have "\<lceil>x\<rceil> \<le> \<lfloor>y\<rfloor>" by (rule order_trans)
    with 2 show ?thesis by (simp add: py_int_of_float_def)
  next
    case 3
    with xy show ?thesis by (simp add: py_int_of_float_def ceiling_mono)
  qed
qed

lemma fl_nonneg: "mono fl \<Longrightarrow> fl 0 = 0 \<Longrightarrow> 0 \<le> x \<Longrightarrow> 0 \<le> fl (x::real)"
  by (metis monoD)

lemma cut_index_antimono:
  assumes "mono fl" and "fl 0 = 0" and "p1 \<le> p2"
  shows "cut_index fl p2 n \<le> cut_index fl p1 n"
proof -
  have n: "0 \<le> fl (real n)" using assms(1,2) by (simp add: fl_nonneg)
  from assms(1,3) have "fl (1 - p2) \<le> fl (1 - p1)" by (simp add: monoD)
  then have "fl (1 - p2) * fl (real n) \<le> fl (1 - p1) * fl (real n)"
    using n by (rule mult_right_mono)
  with assms(1) have "fl (fl (1 - p2) * fl (real n)) \<le> fl (fl (1 - p1) * fl (real n))"
    by (rule monoD)
  then have "fl (fl (1 - p2) * fl (real n)) + 1 / 2 \<le> fl (fl (1 - p1) * fl (real n)) + 1 / 2"
    by simp
  with assms(1) have "fl (fl (fl (1 - p2) * fl (real n)) + 1 / 2) \<le> fl (fl (fl (1 - p1) * fl (real n)) + 1 / 2)"
    by (rule monoD)
  then show ?thesis unfolding cut_index_def by (rule py_int_of_float_mono)
qed

lemma cut_index_nonneg:
  assumes "mono fl" and "fl 0 = 0" and "p \<le> 1"
  shows "0 \<le> cut_index fl p n"
proof -
  have n: "0 \<le> fl (real n)" using assms(1,2) by (simp add: fl_nonneg)
  from assms have "0 \<le> fl (1 - p)" by (simp add: fl_nonneg)
  with n have "0 \<le> fl (1 - p) * fl (real n)" by simp
  with assms(1,2) have "0 \<le> fl (fl (1 - p) * fl (real n))" by (rule fl_nonneg)
  then have "0 \<le> fl (fl (1 - p) * fl (real n)) + 1 / 2" by simp
  with assms(1,2) have "0 \<le> fl (fl (fl (1 - p) * fl (real n)) + 1 / 2)" by (rule fl_nonneg)
  then show ?thesis by (simp add: cut_index_def py_int_of_float_def)
qed

lemma py_index_nonneg:
  assumes "0 \<le> i" and "py_index xs i = Inr x"
  shows "nat i < length xs \<and> x = xs ! nat i"
  using assms by (auto simp: py_index_def split: if_splits)

text \<open>C5: for a table of fragment counts and two fractions \<open>p1 \<le> p2 \<le> 1\<close> for which the
  cut is computed (both indices are inside the sorted list of counts), the cut for \<open>p2\<close> is
  at most the cut for \<open>p1\<close>. The rounding \<open>fl\<close> of the float operations is any monotone
  function that keeps 0, as rounding to the nearest float does.\<close>

theorem compute_cut_antimono:
  assumes "mono fl" and "fl 0 = 0"
    and "p1 \<le> p2" and "p2 \<le> 1"
    and "compute_cut fl p1 frag_count = Inr c1"
    and "compute_cut fl p2 frag_count = Inr c2"
  shows "c2 \<le> c1"
proof -
  let ?n = "length frag_count" and ?s = "sort (map snd frag_count)"
  let ?i1 = "cut_index fl p1 ?n" and ?i2 = "cut_index fl p2 ?n"
  from assms(3,4) have "p1 \<le> 1" by simp
  from cut_index_nonneg [OF assms(1,2) this] have i1: "0 \<le> ?i1" .
  from cut_index_nonneg [OF assms(1,2,4)] have i2: "0 \<le> ?i2" .
  from cut_index_antimono [OF assms(1,2,3)] have le: "?i2 \<le> ?i1" .
  from assms(5) have "py_index ?s ?i1 = Inr c1" by (simp add: compute_cut_def Let_def)
  from py_index_nonneg [OF i1 this] have c1: "nat ?i1 < length ?s" "c1 = ?s ! nat ?i1" by simp_all
  from assms(6) have "py_index ?s ?i2 = Inr c2" by (simp add: compute_cut_def Let_def)
  from py_index_nonneg [OF i2 this] have c2: "c2 = ?s ! nat ?i2" by simp
  from le i2 have "nat ?i2 \<le> nat ?i1" by simp
  with c1(1) have "?s ! nat ?i2 \<le> ?s ! nat ?i1"
    by (intro sorted_nth_mono) simp_all
  with c1(2) c2 show ?thesis by simp
qed

theorem compute_cut_antimono_witness:
  "compute_cut (\<lambda>x. x) (1 / 2) [((''chr1'', 100), 5), ((''chr1'', 400), 1), ((''chr2'', 100), 2)] = Inr 5
   \<and> compute_cut (\<lambda>x. x) (3 / 4) [((''chr1'', 100), 5), ((''chr1'', 400), 1), ((''chr2'', 100), 2)] = Inr 2
   \<and> (2::int) \<le> 5"
proof -
  let ?T = "[((''chr1'', 100::int), 5::int), ((''chr1'', 400), 1), ((''chr2'', 100), 2)]"
  have m: "mono (\<lambda>x::real. x)" by (simp add: mono_def)
  have z: "(\<lambda>x::real. x) 0 = 0" by simp
  have a: "compute_cut (\<lambda>x. x) (1 / 2) ?T = Inr 5"
    by (simp add: compute_cut_def cut_index_def py_int_of_float_def py_index_def)
  have b: "compute_cut (\<lambda>x. x) (3 / 4) ?T = Inr 2"
    by (simp add: compute_cut_def cut_index_def py_int_of_float_def py_index_def)
  have "(2::int) \<le> 5"
    by (rule compute_cut_antimono [OF m z _ _ a b]) simp_all
  with a b show ?thesis by (intro conjI)
qed

text \<open>C9 does not hold of the code: nothing guards the index. With \<open>over_represented = 0\<close>
  the index is the number \<open>n\<close> of fragments, one past the end of the sorted list, and
  \<open>IndexError\<close> is raised, for every table (the three values 1, \<open>n\<close> and \<open>n + 0.5\<close> are
  floats, which rounding keeps).\<close>

theorem compute_cut_index_error:
  assumes "fl 1 = 1"
    and "fl (real (length frag_count)) = real (length frag_count)"
    and "fl (real (length frag_count) + 1 / 2) = real (length frag_count) + 1 / 2"
  shows "cut_index fl 0 (length frag_count) = int (length frag_count)
         \<and> compute_cut fl 0 frag_count = Inl IndexError"
proof -
  have "\<lfloor>real (length frag_count) + 1 / 2\<rfloor> = int (length frag_count)"
    by linarith
  with assms have i: "cut_index fl 0 (length frag_count) = int (length frag_count)"
    by (simp add: cut_index_def py_int_of_float_def)
  then show ?thesis
    by (simp add: compute_cut_def Let_def py_index_def)
qed

theorem compute_cut_index_error_witness:
  "cut_index (\<lambda>x. x) 0 (length [((''chr1'', 100::int), 2::int)]) = 1
   \<and> compute_cut (\<lambda>x. x) 0 [((''chr1'', 100), 2)] = Inl IndexError"
  using compute_cut_index_error [of "\<lambda>x. x" "[((''chr1'', 100), 2)]"]
  by simp

text \<open>In exact arithmetic the same holds for every fraction \<open>p \<ge> 0\<close> with
  \<open>p * n \<le> 0.5\<close>; with the default fraction 0.005, for every table of at most 100
  fragments.\<close>

lemma compute_cut_small_table:
  assumes "0 \<le> p" and "p * real (length frag_count) \<le> 1 / 2"
  shows "compute_cut (\<lambda>x. x) p frag_count = Inl IndexError"
proof -
  let ?n = "length frag_count"
  let ?x = "(1 - p) * real ?n + 1 / 2"
  have eq: "?x = real ?n - p * real ?n + 1 / 2" by (simp add: algebra_simps)
  from assms have pn: "0 \<le> p * real ?n" by simp
  from assms(2) pn have lo: "real ?n \<le> ?x" and hi: "?x < real ?n + 1"
    unfolding eq by linarith+
  then have "\<lfloor>?x\<rfloor> = int ?n" by linarith
  moreover from lo have "0 \<le> ?x" by (meson of_nat_0_le_iff order_trans)
  ultimately have "cut_index (\<lambda>x. x) p ?n = int ?n"
    by (simp add: cut_index_def py_int_of_float_def)
  then show ?thesis by (simp add: compute_cut_def Let_def py_index_def)
qed

lemma filter_reads_default_small:
  "filter_reads (\<lambda>x. x) fnam [((''chr1'', 100), 2)] default_params = Inl IndexError"
  by (simp add: filter_reads_def compute_cut_small_table default_params_def)

subsection \<open>\<open>filter_reads\<close> followed by \<open>apply_filter\<close>\<close>

text \<open>When the dictionary returned by \<open>filter_reads\<close> is passed to \<open>apply_filter\<close> as it is,
  the reads that are removed are those named \<open>name\<close> or \<open>reads\<close>, whatever the
  classification.\<close>

lemma as_argument_all_keys:
  assumes "all_keys m"
  shows "as_argument m = map (\<lambda>k. (k, {''name'', ''reads''})) [1, 2, 3, 4, 5, 6, 7, 8, 9]"
  using assms by (auto simp: as_argument_def all_keys_def category_iter_def)

lemma apply_filter_after_filter_reads:
  assumes "filter_reads fl fnam fc P = Inr m"
  shows "apply_filter F (as_argument m) None =
           Inr (concat (filter (\<lambda>line. read_of_line line \<notin> {''name'', ''reads''}) (file_lines F)))"
proof -
  have "chosen_reads (map (\<lambda>k. (k, {''name'', ''reads''})) [1, 2, 3, 4, 5, 6, 7, 8, 9])
          [1, 2, 3, 4, 5, 6, 7, 8, 9] = {''name'', ''reads''}"
    by (simp add: chosen_reads_def)
  then show ?thesis
    by (simp add: as_argument_all_keys [OF filter_reads_keys [OF assms]] apply_filter_char
        filters_or_keys_def keys_def selector_spec_def)
qed

end
